theory Spec2Isabelle
  imports Complex_Main "HOL-Library.Char_ord" "HOL-Library.List_Lexorder" "HOL-Library.Multiset"
begin

section \<open>Data model of \<^verbatim>\<open>static/js/utils.js\<close> (class \<^verbatim>\<open>App\<close>)\<close>

text \<open>
  \<^verbatim>\<open>AppFolder = {name, path, symlink}\<close> and \<^verbatim>\<open>AppFile = {name, path, symlink, mtime}\<close>.
  Names and paths are strings of 8-bit characters; \<^verbatim>\<open>mtime\<close> is a finite JavaScript
  number (it arrives as JSON, which has neither NaN nor infinities), and on finite
  numbers \<^verbatim>\<open>===\<close> and \<^verbatim>\<open><\<close> are the comparisons of the rationals.
\<close>

record app_folder =
  name :: string
  path :: string
  symlink :: bool

record app_file = app_folder +
  mtime :: rat

datatype sort_by = Name | Mtime

datatype sort_order = Asc | Desc

text \<open>\<^verbatim>\<open>AppState\<close>, with \<^verbatim>\<open>null\<close> as \<open>None\<close>.\<close>

record app_state =
  folderHash :: "string option"
  currentPath :: "string option"
  currentFile :: "string option"
  folders :: "app_folder list"
  files :: "app_file list"
  showHidden :: bool
  sortBy :: sort_by
  sortOrder :: sort_order
  volume :: rat

definition defaultState :: app_state where
  "defaultState =
     \<lparr>folderHash = None, currentPath = None, currentFile = None,
      folders = [], files = [], showHidden = False,
      sortBy = Name, sortOrder = Asc, volume = 1\<rparr>"

text \<open>
  The resource URL built by \<^verbatim>\<open>new URL('/get-file', origin)\<close> with the search parameter
  \<^verbatim>\<open>path\<close> and, for animated images, the parameter \<^verbatim>\<open>t\<close>.
\<close>

datatype resource_url = GetFile (url_path: string) (url_t: "int option")

text \<open>
  An \<^verbatim>\<open>HTMLImageElement\<close>. Objects have identity in JavaScript: \<open>ident\<close> is the serial
  number of the \<^verbatim>\<open>new Image()\<close> call that created the element, so two handles are the
  same object exactly when their \<open>ident\<close> agrees.
\<close>

record image =
  ident :: nat
  src :: resource_url
  classList :: "string list"

text \<open>An entry \<^verbatim>\<open>{img, ts}\<close> of \<^verbatim>\<open>_fileCache\<close>.\<close>

record cache_entry =
  img :: image
  ts :: rat

text \<open>An \<^verbatim>\<open>HTMLVideoElement\<close> as \<^verbatim>\<open>_getVideo\<close> sets it up.\<close>

record video =
  controls :: bool
  autoplay :: bool
  loop :: bool
  video_src :: resource_url
  video_classList :: "string list"
  video_volume :: rat

text \<open>
  The application object. \<open>fileCache\<close> lists the own properties of the object
  \<^verbatim>\<open>_fileCache\<close> in the order \<^verbatim>\<open>Object.keys\<close> reports them, which for keys that are not
  array indices (file paths) is the order of insertion. \<open>saved\<close> is the value under the
  key \<^verbatim>\<open>imageapp-state\<close> of the local storage. \<open>clock\<close> gives the value of the
  \<open>n\<close>-th call of \<^verbatim>\<open>Date.now()\<close> and \<open>ticks\<close> counts the calls made so far;
  \<open>created\<close> counts the \<^verbatim>\<open>new Image()\<close> calls and \<open>consoleErrors\<close> the calls of
  \<^verbatim>\<open>console.error\<close>. The document itself is not part of the model.
\<close>

record app =
  state :: app_state
  fileIndex :: int
  listRebuildRequired :: bool
  previousFolder :: "string option"
  fileCache :: "(string \<times> cache_entry) list"
  saved :: "app_state option"
  clock :: "nat \<Rightarrow> int"
  ticks :: nat
  created :: nat
  consoleErrors :: nat

text \<open>
  A JavaScript exception leaves the mutations made before it in place: a thrown error
  comes with the application object as it was at the throw.
\<close>

datatype js_error = TypeError

type_synonym outcome = "(js_error \<times> app) + app"

definition and_then :: "outcome \<Rightarrow> (app \<Rightarrow> outcome) \<Rightarrow> outcome" where
  "and_then r f = (case r of Inl e \<Rightarrow> Inl e | Inr a \<Rightarrow> f a)"

section \<open>Helpers of the language\<close>

text \<open>\<^verbatim>\<open>xs[i]\<close>: \<^verbatim>\<open>undefined\<close> (\<open>None\<close>) outside the array.\<close>

definition at_index :: "'a list \<Rightarrow> int \<Rightarrow> 'a option" where
  "at_index xs i = (if 0 \<le> i \<and> i < int (length xs) then Some (xs ! nat i) else None)"

text \<open>\<^verbatim>\<open>xs.findIndex(p)\<close>: the first index whose element satisfies \<open>p\<close>, or \<open>-1\<close>.\<close>

fun findIndex :: "('a \<Rightarrow> bool) \<Rightarrow> 'a list \<Rightarrow> int" where
  "findIndex p [] = - 1"
| "findIndex p (x # xs) =
     (if p x then 0 else (let i = findIndex p xs in if i < 0 then - 1 else i + 1))"

text \<open>\<^verbatim>\<open>s.endsWith(t)\<close>.\<close>

definition endsWith :: "string \<Rightarrow> string \<Rightarrow> bool" where
  "endsWith s t = (length t \<le> length s \<and> drop (length s - length t) s = t)"

text \<open>\<^verbatim>\<open>path.match(/\.(mp4|webm|mkv)$/)\<close>.\<close>

definition isVideo :: "string \<Rightarrow> bool" where
  "isVideo p = (endsWith p ''.mp4'' \<or> endsWith p ''.webm'' \<or> endsWith p ''.mkv'')"

text \<open>\<^verbatim>\<open>Date.now()\<close>: the next reading of the clock.\<close>

definition date_now :: "app \<Rightarrow> int \<times> app" where
  "date_now a = (clock a (ticks a), a\<lparr>ticks := Suc (ticks a)\<rparr>)"

section \<open>The media cache\<close>

text \<open>
  \<^verbatim>\<open>_getImage(file)\<close>. The time stamp is \<^verbatim>\<open>Date.now() / 1000.0\<close>; the division
  keeps the order of the readings. The test
  \<^verbatim>\<open>url.searchParams.get('path').endsWith('.gif')\<close> reads back the parameter that was
  appended, which is \<open>file\<close>. A new image gets its \<^verbatim>\<open>src\<close> and its class right after
  its creation. The entry read at the end, \<^verbatim>\<open>this._fileCache[file]\<close>, is always there
  (\<open>getImage_cached\<close> below).
\<close>

definition newImage :: "app \<Rightarrow> image \<times> app" where
  "newImage a =
     (\<lparr>ident = created a, src = GetFile [] None, classList = []\<rparr>,
      a\<lparr>created := Suc (created a)\<rparr>)"

definition update_entry ::
  "string \<Rightarrow> (cache_entry \<Rightarrow> cache_entry) \<Rightarrow> (string \<times> cache_entry) list
     \<Rightarrow> (string \<times> cache_entry) list" where
  "update_entry k f c = map (\<lambda>(k', e). if k' = k then (k', f e) else (k', e)) c"

definition getImage :: "string \<Rightarrow> app \<Rightarrow> image \<times> app" where
  "getImage f a =
     (let url = GetFile f None;
          a1 = (if map_of (fileCache a) f = None
                then (let (i, b) = newImage a;
                          (now, b') = date_now b
                      in b'\<lparr>fileCache := fileCache b' @
                           [(f, \<lparr>img = i\<lparr>src := url, classList := classList i @ [''media-item'']\<rparr>,
                                 ts = of_int now / 1000\<rparr>)]\<rparr>)
                else (let (now, b) = date_now a
                      in b\<lparr>fileCache :=
                           update_entry f (\<lambda>e. e\<lparr>ts := of_int now / 1000\<rparr>) (fileCache b)\<rparr>));
          a2 = (if endsWith f ''.gif''
                then (let (now, b) = date_now a1
                      in b\<lparr>fileCache :=
                           update_entry f (\<lambda>e. e\<lparr>img := (img e)\<lparr>src := GetFile f (Some now)\<rparr>\<rparr>)
                             (fileCache b)\<rparr>)
                else a1)
      in (img (the (map_of (fileCache a2) f)), a2))"

text \<open>
  \<^verbatim>\<open>keys.reduce((a, b) => cache[a].ts < cache[b].ts ? a : b)\<close> over the entries in key
  order: the accumulator is kept only when its time stamp is strictly smaller.
\<close>

fun oldest :: "(string \<times> cache_entry) \<Rightarrow> (string \<times> cache_entry) list \<Rightarrow> (string \<times> cache_entry)" where
  "oldest acc [] = acc"
| "oldest acc (b # bs) = oldest (if ts (snd acc) < ts (snd b) then acc else b) bs"

definition MAX_CACHED_IMAGES :: nat where
  "MAX_CACHED_IMAGES = 50"

definition delete_key :: "string \<Rightarrow> (string \<times> cache_entry) list \<Rightarrow> (string \<times> cache_entry) list" where
  "delete_key k c = filter (\<lambda>(k', e). k' \<noteq> k) c"

definition cleanupCache :: "app \<Rightarrow> app" where
  "cleanupCache a =
     (case fileCache a of
        [] \<Rightarrow> a
      | e # es \<Rightarrow>
          if length (fileCache a) > MAX_CACHED_IMAGES
          then a\<lparr>fileCache := delete_key (fst (oldest e es)) (fileCache a)\<rparr>
          else a)"

text \<open>\<^verbatim>\<open>_preloadNextAndPrevious()\<close>; reading \<^verbatim>\<open>.path\<close> of \<^verbatim>\<open>undefined\<close> throws.\<close>

definition preloadNextAndPrevious :: "app \<Rightarrow> outcome" where
  "preloadNextAndPrevious a =
     (let fs = files (state a) in
      if length fs = 0 then Inr a
      else
        (let nextIndex = min (int (length fs) - 1) (fileIndex a + 1);
             prevIndex = max 0 (fileIndex a - 1)
         in (case at_index fs nextIndex of
               None \<Rightarrow> Inl (TypeError, a)
             | Some nf \<Rightarrow>
                 (let a1 = (if \<not> isVideo (path nf) then snd (getImage (path nf) a) else a)
                  in (case at_index fs prevIndex of
                        None \<Rightarrow> Inl (TypeError, a1)
                      | Some pf \<Rightarrow>
                          Inr (if \<not> isVideo (path pf) then snd (getImage (path pf) a1)
                               else a1))))))"

text \<open>
  \<^verbatim>\<open>_getVideo(file)\<close>: \<^verbatim>\<open>this.state.volume || 1.0\<close> takes \<open>1.0\<close> when the volume is
  \<open>0\<close>. The element is returned as it is set up; its listener for \<^verbatim>\<open>volumechange\<close>
  runs later and is left out.
\<close>

definition getVideo :: "string \<Rightarrow> app \<Rightarrow> video" where
  "getVideo f a =
     \<lparr>controls = True, autoplay = True, loop = True,
      video_src = GetFile f None, video_classList = [''media-item''],
      video_volume = (if volume (state a) = 0 then 1 else volume (state a))\<rparr>"

text \<open>
  \<^verbatim>\<open>_renderImage()\<close>, as far as the application object goes: a video is created and
  nothing is cached; an image is resolved and the cache trimmed; then the neighbours are
  preloaded.
\<close>

definition renderImage :: "app \<Rightarrow> outcome" where
  "renderImage a =
     (case currentFile (state a) of
        None \<Rightarrow> Inr a
      | Some f \<Rightarrow>
          preloadNextAndPrevious
            (if isVideo f then a else cleanupCache (snd (getImage f a))))"

text \<open>\<^verbatim>\<open>_render()\<close>: the list is rebuilt or re-highlighted, the flag cleared, the image rendered.\<close>

definition render :: "app \<Rightarrow> outcome" where
  "render a = renderImage (a\<lparr>listRebuildRequired := False\<rparr>)"

text \<open>\<^verbatim>\<open>save()\<close>: the state is written to the local storage.\<close>

definition save :: "app \<Rightarrow> app" where
  "save a = a\<lparr>saved := Some (state a)\<rparr>"

section \<open>Navigation\<close>

definition set_currentFile :: "string option \<Rightarrow> app \<Rightarrow> app" where
  "set_currentFile v a = a\<lparr>state := (state a)\<lparr>currentFile := v\<rparr>\<rparr>"

text \<open>
  \<^verbatim>\<open>nextFile()\<close> and \<^verbatim>\<open>prevFile()\<close>. The closing \<^verbatim>\<open>setObjectPosition(0, 0)\<close> of
  \<^verbatim>\<open>nextFile\<close> writes a style of the document only.
\<close>

definition nextFile :: "app \<Rightarrow> outcome" where
  "nextFile a =
     (if length (files (state a)) = 0 then Inr a
      else
        let a1 = a\<lparr>fileIndex := min (int (length (files (state a))) - 1) (fileIndex a + 1)\<rparr>
        in (case at_index (files (state a1)) (fileIndex a1) of
              None \<Rightarrow> Inl (TypeError, a1)
            | Some f \<Rightarrow> render (save (set_currentFile (Some (path f)) a1))))"

definition prevFile :: "app \<Rightarrow> outcome" where
  "prevFile a =
     (if length (files (state a)) = 0 then Inr a
      else
        let a1 = a\<lparr>fileIndex := max 0 (fileIndex a - 1)\<rparr>
        in (case at_index (files (state a1)) (fileIndex a1) of
              None \<Rightarrow> Inl (TypeError, a1)
            | Some f \<Rightarrow> render (save (set_currentFile (Some (path f)) a1))))"

text \<open>
  What the cache operations leave alone: everything of the application object except
  the cache, the count of clock readings and the count of images created.
\<close>

definition same_navigation :: "app \<Rightarrow> app \<Rightarrow> bool" where
  "same_navigation a a' =
     (state a' = state a \<and> fileIndex a' = fileIndex a \<and>
      listRebuildRequired a' = listRebuildRequired a \<and>
      previousFolder a' = previousFolder a \<and> saved a' = saved a \<and> clock a' = clock a \<and>
      consoleErrors a' = consoleErrors a)"

section \<open>Loading the persisted state\<close>

text \<open>
  \<^verbatim>\<open>load()\<close>: the persisted object is merged over \<^verbatim>\<open>defaultState\<close> and the cursor is
  derived from \<^verbatim>\<open>currentFile\<close>. The storage holds what \<^verbatim>\<open>save()\<close> wrote, a complete
  \<^verbatim>\<open>AppState\<close>, or nothing.
\<close>

definition load :: "app \<Rightarrow> app" where
  "load a =
     (let st = (case saved a of None \<Rightarrow> defaultState | Some s \<Rightarrow> s)
      in a\<lparr>state := st,
           fileIndex := max 0 (findIndex (\<lambda>f. Some (path f) = currentFile st) (files st))\<rparr>)"

section \<open>Panning\<close>

text \<open>
  The element \<^verbatim>\<open>#image\<close> and the media item in it. An image has \<^verbatim>\<open>naturalWidth\<close> and
  \<^verbatim>\<open>naturalHeight\<close> and no \<^verbatim>\<open>videoWidth\<close>; a video the other way round.
  \<open>objectPosition\<close> is the pair of percentages of the style \<^verbatim>\<open>object-position\<close> that
  the application has set, if any.
\<close>

datatype media_item = ImageItem nat nat | VideoItem nat nat

record stage =
  media :: "media_item option"
  cWidth :: rat
  cHeight :: rat
  fitCover :: bool
  fitNone :: bool
  objectPosition :: "(rat \<times> rat) option"

datatype direction = Up | Down

text \<open>
  \<^verbatim>\<open>_resolution()\<close>: \<^verbatim>\<open>m && m.naturalWidth || m.videoWidth\<close>, with \<^verbatim>\<open>undefined\<close> as
  \<open>None\<close>. Without a media item the right operand reads a property of \<^verbatim>\<open>undefined\<close>
  and throws.
\<close>

definition resolution :: "stage \<Rightarrow> js_error + (rat option \<times> rat option)" where
  "resolution st =
     (case media st of
        None \<Rightarrow> Inl TypeError
      | Some (ImageItem w h) \<Rightarrow>
          Inr (if w \<noteq> 0 then Some (of_nat w) else None, if h \<noteq> 0 then Some (of_nat h) else None)
      | Some (VideoItem w h) \<Rightarrow> Inr (Some (of_nat w), Some (of_nat h)))"

text \<open>
  The quotient of two JavaScript numbers: a division by zero gives an infinity or NaN,
  an \<^verbatim>\<open>undefined\<close> operand gives NaN. The quotient of finite numbers is taken exactly.
\<close>

datatype js_quotient = Num rat | PosInfinity | NegInfinity | NaN

definition js_div :: "rat option \<Rightarrow> rat option \<Rightarrow> js_quotient" where
  "js_div x y =
     (case (x, y) of
        (Some a, Some b) \<Rightarrow>
          if b \<noteq> 0 then Num (a / b)
          else if a = 0 then NaN else if 0 < a then PosInfinity else NegInfinity
      | _ \<Rightarrow> NaN)"

fun js_less :: "js_quotient \<Rightarrow> js_quotient \<Rightarrow> bool" where
  "js_less NaN _ = False"
| "js_less _ NaN = False"
| "js_less (Num a) (Num b) = (a < b)"
| "js_less (Num a) PosInfinity = True"
| "js_less NegInfinity (Num b) = True"
| "js_less NegInfinity PosInfinity = True"
| "js_less _ _ = False"

text \<open>\<^verbatim>\<open>_direction()\<close>.\<close>

definition direction_of :: "stage \<Rightarrow> js_error + direction" where
  "direction_of st =
     (case resolution st of
        Inl e \<Rightarrow> Inl e
      | Inr (width, height) \<Rightarrow>
          Inr (if js_less (js_div width height) (js_div (Some (cWidth st)) (Some (cHeight st)))
               then Up else Down))"

text \<open>\<^verbatim>\<open>_isMediaBigger()\<close>; a comparison with \<^verbatim>\<open>undefined\<close> is false.\<close>

definition isMediaBigger :: "stage \<Rightarrow> js_error + bool" where
  "isMediaBigger st =
     (if fitCover st \<or> fitNone st
      then (case resolution st of
              Inl e \<Rightarrow> Inl e
            | Inr (width, height) \<Rightarrow>
                Inr ((case width of None \<Rightarrow> False | Some w \<Rightarrow> w > cWidth st) \<or>
                     (case height of None \<Rightarrow> False | Some h \<Rightarrow> h > cHeight st)))
      else Inr False)"

text \<open>
  \<^verbatim>\<open>setObjectPosition(x, y)\<close>, for finite coordinates. \<open>clampPosition\<close> is its
  computation of the pair (the clamping and the pinning), given the direction.
\<close>

definition clampPosition :: "direction \<Rightarrow> rat \<Rightarrow> rat \<Rightarrow> rat \<times> rat" where
  "clampPosition d x y =
     (let x1 = max 0 (min 100 x);
          y1 = max 0 (min 100 y)
      in if d = Up then (50, y1) else (x1, 50))"

definition setObjectPosition :: "rat \<Rightarrow> rat \<Rightarrow> stage \<Rightarrow> js_error + stage" where
  "setObjectPosition x y st =
     (case direction_of st of
        Inl e \<Rightarrow> Inl e
      | Inr d \<Rightarrow>
          (case isMediaBigger st of
             Inl e \<Rightarrow> Inl e
           | Inr bigger \<Rightarrow>
               Inr (if bigger then st\<lparr>objectPosition := Some (clampPosition d x y)\<rparr> else st)))"

section \<open>Sorting\<close>

text \<open>
  \<^verbatim>\<open>name.toLowerCase().replace(/[\[\]\(\)\{}<>]+/g, '')\<close>: the letters \<open>A\<close> to \<open>Z\<close> are
  lowered and every bracket, parenthesis, brace and angle is dropped. (Names are taken
  to be ASCII; \<^verbatim>\<open><\<close> on strings compares code units lexicographically, a proper
  prefix being smaller.)
\<close>

definition lower_char :: "char \<Rightarrow> char" where
  "lower_char c =
     (if CHR ''A'' \<le> c \<and> c \<le> CHR ''Z'' then char_of (of_char c + (32 :: nat)) else c)"

definition toLowerCase :: "string \<Rightarrow> string" where
  "toLowerCase s = map lower_char s"

definition normalize_name :: "string \<Rightarrow> string" where
  "normalize_name s = filter (\<lambda>c. c \<notin> set ''[](){}<>'') (toLowerCase s)"

text \<open>The comparator of the folders (lines 266 to 276).\<close>

definition folderCmp :: "app_folder \<Rightarrow> app_folder \<Rightarrow> int" where
  "folderCmp a b =
     (let aVal = normalize_name (name a);
          bVal = normalize_name (name b)
      in if aVal = ''..'' then - 1
         else if bVal = ''..'' then 1
         else if aVal = bVal then 0
         else if aVal < bVal then - 1
         else 1)"

text \<open>The comparator of the files (lines 278 to 292); \<open>compareKeys\<close> is its tail.\<close>

definition compareKeys :: "sort_order \<Rightarrow> 'k::linorder \<Rightarrow> 'k \<Rightarrow> int" where
  "compareKeys so aVal bVal =
     (if aVal = bVal then 0
      else if aVal < bVal then (if so = Asc then - 1 else 1)
      else (if so = Asc then 1 else - 1))"

definition fileCmp :: "sort_by \<Rightarrow> sort_order \<Rightarrow> app_file \<Rightarrow> app_file \<Rightarrow> int" where
  "fileCmp sb so a b =
     (case sb of
        Name \<Rightarrow> compareKeys so (normalize_name (name a)) (normalize_name (name b))
      | Mtime \<Rightarrow> compareKeys so (mtime a) (mtime b))"

text \<open>
  \<^verbatim>\<open>Array.prototype.sort(comparefn)\<close>. The language asks for a stable sort and fixes
  the result whenever \<^verbatim>\<open>comparefn\<close> is a consistent comparison of the elements; every
  engine then returns the same array. Where it is not consistent the order is left to
  the engine. The model is an insertion sort that takes the elements from left to right
  and moves each one towards the front past the elements it is smaller than, asking
  \<^verbatim>\<open>comparefn(new, earlier)\<close>, which is the order of arguments V8 (Chrome, Node) uses.
  \<open>insert_sorted\<close> works on the sorted part in reverse, last element first.
\<close>

fun insert_sorted :: "('a \<Rightarrow> 'a \<Rightarrow> int) \<Rightarrow> 'a \<Rightarrow> 'a list \<Rightarrow> 'a list" where
  "insert_sorted cmp x [] = [x]"
| "insert_sorted cmp x (y # ys) =
     (if cmp x y < 0 then y # insert_sorted cmp x ys else x # y # ys)"

definition array_sort :: "('a \<Rightarrow> 'a \<Rightarrow> int) \<Rightarrow> 'a list \<Rightarrow> 'a list" where
  "array_sort cmp xs = rev (foldl (\<lambda>done x. insert_sorted cmp x done) [] xs)"

text \<open>\<^verbatim>\<open>_resort()\<close> and \<^verbatim>\<open>changeSort(sortBy, sortOrder)\<close>.\<close>

definition resort :: "app \<Rightarrow> outcome" where
  "resort a =
     (let st = (state a)\<lparr>folders := array_sort folderCmp (folders (state a)),
                          files := array_sort (fileCmp (sortBy (state a)) (sortOrder (state a)))
                                     (files (state a))\<rparr>
      in render (save (a\<lparr>state := st,
                         fileIndex := max 0 (findIndex (\<lambda>f. Some (path f) = currentFile st)
                                                (files st))\<rparr>)))"

definition changeSort :: "sort_by \<Rightarrow> sort_order \<Rightarrow> app \<Rightarrow> outcome" where
  "changeSort sb so a =
     (if sortBy (state a) = sb \<and> sortOrder (state a) = so then Inr a
      else resort (a\<lparr>state := (state a)\<lparr>sortBy := sb, sortOrder := so\<rparr>\<rparr>))"

section \<open>Refreshing the listing\<close>

text \<open>
  What \<^verbatim>\<open>await fetch(...)\<close> and \<^verbatim>\<open>await resp.json()\<close> give: the request fails, the
  body is not JSON, or a listing \<^verbatim>\<open>{canonical_path, folders, files, hash: {hash}}\<close>
  arrives.
\<close>

record response_list =
  canonical_path :: string
  resp_folders :: "app_folder list"
  resp_files :: "app_file list"
  resp_hash :: string

datatype fetch_result = NetworkError | MalformedJson | Listing response_list

text \<open>
  \<^verbatim>\<open>_fetchList(path, forceRebuild)\<close> from the moment the request for \<open>path\<close> settles.
  The \<^verbatim>\<open>catch\<close> block logs and falls through, so \<^verbatim>\<open>data\<close> is \<^verbatim>\<open>undefined\<close> when
  \<^verbatim>\<open>data.canonical_path\<close> is read on line 210, which throws before anything is
  assigned.
\<close>

text \<open>\<open>reconcile\<close> is the reconciliation of the selection, lines 218 to 226.\<close>

definition reconcile :: "app \<Rightarrow> outcome" where
  "reconcile a =
     (let fs = files (state a) in
      if length fs > 0
      then (let a1 = a\<lparr>fileIndex := findIndex (\<lambda>f. Some (path f) = currentFile (state a)) fs\<rparr>
            in if fileIndex a1 = - 1
               then (let a2 = a1\<lparr>fileIndex := 0\<rparr>
                     in (case at_index fs (fileIndex a2) of
                           None \<Rightarrow> Inl (TypeError, a2)
                         | Some f \<Rightarrow> Inr (set_currentFile (Some (path f)) a2)))
               else Inr a1)
      else Inr (set_currentFile None a))"

definition fetchList :: "fetch_result \<Rightarrow> bool \<Rightarrow> app \<Rightarrow> outcome" where
  "fetchList r forceRebuild a =
     (case r of
        Listing d \<Rightarrow>
          (let a1 = a\<lparr>listRebuildRequired :=
                        (currentPath (state a) \<noteq> Some (canonical_path d) \<or> forceRebuild)\<rparr>;
               a2 = a1\<lparr>state := (state a1)\<lparr>currentPath := Some (canonical_path d),
                                               folders := resp_folders d,
                                               files := resp_files d,
                                               folderHash := Some (resp_hash d)\<rparr>\<rparr>
           in and_then (resort a2)
                (\<lambda>a3. and_then (reconcile a3) (\<lambda>a4. render (save a4))))
      | _ \<Rightarrow> Inl (TypeError, a\<lparr>consoleErrors := Suc (consoleErrors a)\<rparr>))"

text \<open>
  The cursor is on the current file: \<open>fileIndex\<close> is the index of the first entry of
  \<open>files\<close> whose path is \<open>currentFile\<close>.
\<close>

definition cursor_on_current :: "app \<Rightarrow> bool" where
  "cursor_on_current a =
     (0 \<le> fileIndex a \<and> fileIndex a < int (length (files (state a))) \<and>
      Some (path (files (state a) ! nat (fileIndex a))) = currentFile (state a) \<and>
      (\<forall>j < nat (fileIndex a). Some (path (files (state a) ! j)) \<noteq> currentFile (state a)))"

text \<open>The sort key of a folder, and the folders that are pinned first.\<close>

definition folder_key :: "app_folder \<Rightarrow> string" where
  "folder_key f = normalize_name (name f)"

definition is_parent :: "app_folder \<Rightarrow> bool" where
  "is_parent f = (folder_key f = ''..'')"


section \<open>Example inputs\<close>

definition example_files :: "app_file list" where
  "example_files =
     [\<lparr>name = ''a.png'', path = ''/pics/a.png'', symlink = False, mtime = 30\<rparr>,
      \<lparr>name = ''B.gif'', path = ''/pics/B.gif'', symlink = False, mtime = 10\<rparr>,
      \<lparr>name = ''c.mp4'', path = ''/pics/c.mp4'', symlink = False, mtime = 20\<rparr>]"

definition example_app :: "string option \<Rightarrow> int \<Rightarrow> app" where
  "example_app cur i =
     \<lparr>state = defaultState\<lparr>currentPath := Some ''/pics'', currentFile := cur,
                              files := example_files\<rparr>,
      fileIndex = i, listRebuildRequired = False, previousFolder = None,
      fileCache = [], saved = None, clock = (\<lambda>n. 1000 * int n), ticks = 0, created = 0,
      consoleErrors = 0\<rparr>"

text \<open>A session whose persisted volume is \<open>0\<close>.\<close>

definition muted_app :: app where
  "muted_app =
     (example_app None 0)\<lparr>saved := Some (defaultState\<lparr>currentPath := Some ''/pics'',
                                                      files := example_files, volume := 0\<rparr>)\<rparr>"

text \<open>A 1920x1080 image shown in cover mode in an 800x600 viewport.\<close>

definition wide_stage :: stage where
  "wide_stage =
     \<lparr>media = Some (ImageItem 1920 1080), cWidth = 800, cHeight = 600,
      fitCover = True, fitNone = False, objectPosition = None\<rparr>"

text \<open>A 600x1600 image in the same viewport.\<close>

definition tall_stage :: stage where
  "tall_stage =
     \<lparr>media = Some (ImageItem 600 1600), cWidth = 800, cHeight = 600,
      fitCover = True, fitNone = False, objectPosition = None\<rparr>"

text \<open>A 600x1600 video in the same viewport, no media at all, and the wide image in the
  default fit mode.\<close>

definition tall_video_stage :: stage where
  "tall_video_stage =
     \<lparr>media = Some (VideoItem 600 1600), cWidth = 800, cHeight = 600,
      fitCover = False, fitNone = True, objectPosition = None\<rparr>"

definition empty_stage :: stage where
  "empty_stage =
     \<lparr>media = None, cWidth = 800, cHeight = 600,
      fitCover = True, fitNone = False, objectPosition = None\<rparr>"

definition contain_stage :: stage where
  "contain_stage =
     \<lparr>media = Some (ImageItem 1920 1080), cWidth = 800, cHeight = 600,
      fitCover = False, fitNone = False, objectPosition = Some (50, 50)\<rparr>"

text \<open>A cache that already holds a still image and an animated one.\<close>

definition warm_png_entry :: cache_entry where
  "warm_png_entry =
     \<lparr>img = \<lparr>ident = 0, src = GetFile ''/pics/a.png'' None, classList = [''media-item'']\<rparr>,
      ts = 1\<rparr>"

definition warm_gif_entry :: cache_entry where
  "warm_gif_entry =
     \<lparr>img = \<lparr>ident = 1, src = GetFile ''/pics/B.gif'' (Some 5), classList = [''media-item'']\<rparr>,
      ts = 2\<rparr>"

definition warm_app :: app where
  "warm_app =
     (example_app None 0)\<lparr>fileCache := [(''/pics/a.png'', warm_png_entry),
                                         (''/pics/B.gif'', warm_gif_entry)],
                           created := 2\<rparr>"

text \<open>The same cache under a clock that stands still at one millisecond.\<close>

definition still_app :: app where
  "still_app = warm_app\<lparr>clock := (\<lambda>n. 1000)\<rparr>"

text \<open>
  A gallery of sixty still images \<open>pic 0\<close>, \<open>pic 1\<close>, ... and caches over it: the
  entry of \<open>pic n\<close> with time stamp \<open>t\<close>.
\<close>

definition pic :: "nat \<Rightarrow> string" where
  "pic n = ''/pics/'' @ replicate n CHR ''x'' @ ''.png''"

definition pic_file :: "nat \<Rightarrow> app_file" where
  "pic_file n = \<lparr>name = pic n, path = pic n, symlink = False, mtime = of_nat n\<rparr>"

definition pic_entry :: "nat \<Rightarrow> rat \<Rightarrow> string \<times> cache_entry" where
  "pic_entry n t =
     (pic n, \<lparr>img = \<lparr>ident = n, src = GetFile (pic n) None, classList = [''media-item'']\<rparr>,
              ts = t\<rparr>)"

definition gallery :: "(string \<times> cache_entry) list \<Rightarrow> string option \<Rightarrow> int \<Rightarrow> app" where
  "gallery c cur i =
     \<lparr>state = defaultState\<lparr>currentPath := Some ''/pics'', currentFile := cur,
                             files := map pic_file [0..<60]\<rparr>,
      fileIndex = i, listRebuildRequired = False, previousFolder = None,
      fileCache = c, saved = None, clock = (\<lambda>n. 100000 + int n), ticks = 0,
      created = 60, consoleErrors = 0\<rparr>"

text \<open>
  Fifty-one entries, in key order \<open>pic 0\<close>, ..., \<open>pic 50\<close>; the first two were resolved
  in the same millisecond and are the least recently accessed.
\<close>

definition later_entries :: "(string \<times> cache_entry) list" where
  "later_entries = map (\<lambda>n. pic_entry n (of_nat n)) [2..<51]"

definition tied_cache :: "(string \<times> cache_entry) list" where
  "tied_cache = pic_entry 0 0 # pic_entry 1 0 # later_entries"

text \<open>Fifty entries, \<open>pic 0\<close>, ..., \<open>pic 49\<close>, resolved one after the other.\<close>

definition full_cache :: "(string \<times> cache_entry) list" where
  "full_cache = map (\<lambda>n. pic_entry n (of_nat n)) [0..<50]"

text \<open>The listing \<open>a\<close>, \<open>b\<close>, \<open>c\<close> with \<open>b\<close> selected, sorted ascending by name.\<close>

definition abc_files :: "app_file list" where
  "abc_files =
     [\<lparr>name = ''a'', path = ''a'', symlink = False, mtime = 3\<rparr>,
      \<lparr>name = ''b'', path = ''b'', symlink = False, mtime = 1\<rparr>,
      \<lparr>name = ''c'', path = ''c'', symlink = False, mtime = 2\<rparr>]"

definition abc_app :: app where
  "abc_app =
     \<lparr>state = defaultState\<lparr>currentPath := Some ''/'', currentFile := Some ''b'',
                             files := abc_files\<rparr>,
      fileIndex = 1, listRebuildRequired = False, previousFolder = None,
      fileCache = [], saved = None, clock = (\<lambda>n. 1000 * int n), ticks = 0, created = 0,
      consoleErrors = 0\<rparr>"

text \<open>Three answers of the server: \<open>b\<close> still there, \<open>b\<close> gone, nothing left.\<close>

definition listing_with_b :: response_list where
  "listing_with_b =
     \<lparr>canonical_path = ''/'', resp_folders = [],
      resp_files = [\<lparr>name = ''d'', path = ''d'', symlink = False, mtime = 4\<rparr>,
                    \<lparr>name = ''b'', path = ''b'', symlink = False, mtime = 1\<rparr>,
                    \<lparr>name = ''a'', path = ''a'', symlink = False, mtime = 3\<rparr>],
      resp_hash = ''h1''\<rparr>"

definition listing_without_b :: response_list where
  "listing_without_b =
     \<lparr>canonical_path = ''/'', resp_folders = [],
      resp_files = [\<lparr>name = ''d'', path = ''d'', symlink = False, mtime = 4\<rparr>,
                    \<lparr>name = ''a'', path = ''a'', symlink = False, mtime = 3\<rparr>],
      resp_hash = ''h2''\<rparr>"

definition empty_listing :: response_list where
  "empty_listing =
     \<lparr>canonical_path = ''/'', resp_folders = [], resp_files = [], resp_hash = ''h3''\<rparr>"

text \<open>The parent entry and a folder named \<open>(..)\<close>.\<close>

definition parent_dir :: app_folder where
  "parent_dir = \<lparr>name = ''..'', path = ''/'', symlink = False\<rparr>"

definition paren_dir :: app_folder where
  "paren_dir = \<lparr>name = ''(..)'', path = ''/pics/(..)'', symlink = False\<rparr>"



section \<open>Rendering never disturbs the navigation state\<close>

lemma same_navigation_refl: "same_navigation a a"
  by (simp add: same_navigation_def)

lemma same_navigation_trans:
  "same_navigation a b \<Longrightarrow> same_navigation b c \<Longrightarrow> same_navigation a c"
  by (simp add: same_navigation_def)

lemma getImage_same: "same_navigation a (snd (getImage f a))"
  by (simp add: getImage_def same_navigation_def newImage_def date_now_def Let_def split: prod.splits)

lemma cleanupCache_same: "same_navigation a (cleanupCache a)"
  by (simp add: cleanupCache_def same_navigation_def split: list.splits)

lemma preload_ok:
  assumes "files (state a) = [] \<or> (0 \<le> fileIndex a \<and> fileIndex a < int (length (files (state a))))"
  shows "\<exists>a'. preloadNextAndPrevious a = Inr a' \<and> same_navigation a a'"
proof (cases "files (state a) = []")
  case True
  then show ?thesis by (simp add: preloadNextAndPrevious_def same_navigation_refl)
next
  case False
  with assms have r: "0 \<le> fileIndex a" "fileIndex a < int (length (files (state a)))" by auto
  let ?fs = "files (state a)"
  let ?n = "min (int (length ?fs) - 1) (fileIndex a + 1)"
  let ?p = "max 0 (fileIndex a - 1)"
  have "0 \<le> ?n \<and> ?n < int (length ?fs)" using r by linarith
  then obtain nf where nf: "at_index ?fs ?n = Some nf"
    by (simp add: at_index_def)
  have "0 \<le> ?p \<and> ?p < int (length ?fs)" using r by linarith
  then obtain pf where pf: "at_index ?fs ?p = Some pf"
    by (simp add: at_index_def)
  let ?a1 = "if \<not> isVideo (path nf) then snd (getImage (path nf) a) else a"
  have s1: "same_navigation a ?a1" by (simp add: getImage_same same_navigation_refl)
  let ?a2 = "if \<not> isVideo (path pf) then snd (getImage (path pf) ?a1) else ?a1"
  have s2: "same_navigation ?a1 ?a2" by (simp add: getImage_same same_navigation_refl)
  have "preloadNextAndPrevious a = Inr ?a2"
    using False nf pf by (simp add: preloadNextAndPrevious_def Let_def)
  moreover have "same_navigation a ?a2" using s1 s2 by (rule same_navigation_trans)
  ultimately show ?thesis by blast
qed


lemma render_ok:
  assumes "files (state a) = [] \<or> (0 \<le> fileIndex a \<and> fileIndex a < int (length (files (state a))))"
  shows "\<exists>a'. render a = Inr a' \<and> state a' = state a \<and> fileIndex a' = fileIndex a \<and>
           saved a' = saved a \<and> previousFolder a' = previousFolder a \<and>
           consoleErrors a' = consoleErrors a \<and> \<not> listRebuildRequired a'"
proof -
  let ?b = "a\<lparr>listRebuildRequired := False\<rparr>"
  show ?thesis
  proof (cases "currentFile (state a)")
    case None
    then show ?thesis by (simp add: render_def renderImage_def)
  next
    case (Some f)
    let ?c = "if isVideo f then ?b else cleanupCache (snd (getImage f ?b))"
    have bc: "same_navigation ?b ?c"
      using same_navigation_trans [OF getImage_same cleanupCache_same]
      by (simp add: same_navigation_refl)
    then have "files (state ?c) = [] \<or> (0 \<le> fileIndex ?c \<and> fileIndex ?c < int (length (files (state ?c))))"
      using assms by (simp add: same_navigation_def)
    from preload_ok [OF this] obtain a' where
      a': "preloadNextAndPrevious ?c = Inr a'" "same_navigation ?c a'" by blast
    have "same_navigation ?b a'" using bc a'(2) by (rule same_navigation_trans)
    moreover have "render a = Inr a'" using Some a'(1) by (simp add: render_def renderImage_def)
    ultimately show ?thesis by (simp add: same_navigation_def)
  qed
qed


section \<open>Navigation at the ends of the list\<close>

text \<open>
  C10. Navigation clamps at the ends of the list and never wraps around. With no files,
  \<^verbatim>\<open>nextFile\<close> and \<^verbatim>\<open>prevFile\<close> return the application object untouched. With
  the cursor on the last file (and \<^verbatim>\<open>currentFile\<close> the path of the file under the cursor,
  as the data model has it), \<^verbatim>\<open>nextFile\<close> completes and leaves the cursor and the whole
  \<^verbatim>\<open>AppState\<close>, \<^verbatim>\<open>currentFile\<close> included, as they were; likewise \<^verbatim>\<open>prevFile\<close> with the
  cursor on the first file.
\<close>

theorem navigation_clamps:
  "(files (state a) = [] \<longrightarrow> nextFile a = Inr a \<and> prevFile a = Inr a) \<and>
   (files (state a) \<noteq> [] \<and> fileIndex a = int (length (files (state a))) - 1 \<and>
    currentFile (state a) = Some (path (files (state a) ! nat (fileIndex a))) \<longrightarrow>
      (\<exists>a'. nextFile a = Inr a' \<and> fileIndex a' = fileIndex a \<and> state a' = state a)) \<and>
   (files (state a) \<noteq> [] \<and> fileIndex a = 0 \<and>
    currentFile (state a) = Some (path (files (state a) ! nat (fileIndex a))) \<longrightarrow>
      (\<exists>a'. prevFile a = Inr a' \<and> fileIndex a' = fileIndex a \<and> state a' = state a))"
proof (intro conjI impI)
  assume "files (state a) = []"
  then show "nextFile a = Inr a" by (simp add: nextFile_def)
next
  assume "files (state a) = []"
  then show "prevFile a = Inr a" by (simp add: prevFile_def)
next
  assume h: "files (state a) \<noteq> [] \<and> fileIndex a = int (length (files (state a))) - 1 \<and>
    currentFile (state a) = Some (path (files (state a) ! nat (fileIndex a)))"
  let ?fs = "files (state a)"
  let ?f = "?fs ! nat (fileIndex a)"
  let ?a1 = "a\<lparr>fileIndex := min (int (length ?fs) - 1) (fileIndex a + 1)\<rparr>"
  have i: "fileIndex ?a1 = fileIndex a" using h by simp
  have len: "0 < length ?fs" using h by simp
  have at: "at_index (files (state ?a1)) (fileIndex ?a1) = Some ?f"
    using h len by (simp add: at_index_def)
  let ?b = "save (set_currentFile (Some (path ?f)) ?a1)"
  have sb: "state ?b = state a" using h by (simp add: save_def set_currentFile_def)
  have ib: "fileIndex ?b = fileIndex a" using i by (simp add: save_def set_currentFile_def)
  have "files (state ?b) = [] \<or> (0 \<le> fileIndex ?b \<and> fileIndex ?b < int (length (files (state ?b))))"
    unfolding sb ib using h len by simp
  from render_ok [OF this] obtain a' where
    "render ?b = Inr a'" "state a' = state ?b" "fileIndex a' = fileIndex ?b" by blast
  moreover have "nextFile a = render ?b"
    using h at by (simp add: nextFile_def Let_def)
  ultimately show "\<exists>a'. nextFile a = Inr a' \<and> fileIndex a' = fileIndex a \<and> state a' = state a"
    using sb ib by simp
next
  assume h: "files (state a) \<noteq> [] \<and> fileIndex a = 0 \<and>
    currentFile (state a) = Some (path (files (state a) ! nat (fileIndex a)))"
  let ?fs = "files (state a)"
  let ?f = "?fs ! nat (fileIndex a)"
  let ?a1 = "a\<lparr>fileIndex := max 0 (fileIndex a - 1)\<rparr>"
  have i: "fileIndex ?a1 = fileIndex a" using h by simp
  have len: "0 < length ?fs" using h by simp
  have at: "at_index (files (state ?a1)) (fileIndex ?a1) = Some ?f"
    using h len by (simp add: at_index_def)
  let ?b = "save (set_currentFile (Some (path ?f)) ?a1)"
  have sb: "state ?b = state a" using h by (simp add: save_def set_currentFile_def)
  have ib: "fileIndex ?b = fileIndex a" using i by (simp add: save_def set_currentFile_def)
  have "files (state ?b) = [] \<or> (0 \<le> fileIndex ?b \<and> fileIndex ?b < int (length (files (state ?b))))"
    unfolding sb ib using h len by simp
  from render_ok [OF this] obtain a' where
    "render ?b = Inr a'" "state a' = state ?b" "fileIndex a' = fileIndex ?b" by blast
  moreover have "prevFile a = render ?b"
    using h at by (simp add: prevFile_def Let_def)
  ultimately show "\<exists>a'. prevFile a = Inr a' \<and> fileIndex a' = fileIndex a \<and> state a' = state a"
    using sb ib by simp
qed

theorem navigation_clamps_witness:
  "files (state (example_app (Some ''/pics/c.mp4'') 2)) \<noteq> [] \<and>
   fileIndex (example_app (Some ''/pics/c.mp4'') 2)
     = int (length (files (state (example_app (Some ''/pics/c.mp4'') 2)))) - 1 \<and>
   (\<exists>a'. nextFile (example_app (Some ''/pics/c.mp4'') 2) = Inr a' \<and> fileIndex a' = 2 \<and>
      currentFile (state a') = Some ''/pics/c.mp4'') \<and>
   files (state (example_app (Some ''/pics/a.png'') 0)) \<noteq> [] \<and>
   (\<exists>a'. prevFile (example_app (Some ''/pics/a.png'') 0) = Inr a' \<and> fileIndex a' = 0 \<and>
      currentFile (state a') = Some ''/pics/a.png'')"
proof -
  let ?a = "example_app (Some ''/pics/c.mp4'') 2"
  let ?b = "example_app (Some ''/pics/a.png'') 0"
  have ha: "files (state ?a) \<noteq> [] \<and> fileIndex ?a = int (length (files (state ?a))) - 1 \<and>
      currentFile (state ?a) = Some (path (files (state ?a) ! nat (fileIndex ?a)))"
    by (simp add: example_app_def example_files_def)
  have hb: "files (state ?b) \<noteq> [] \<and> fileIndex ?b = 0 \<and>
      currentFile (state ?b) = Some (path (files (state ?b) ! nat (fileIndex ?b)))"
    by (simp add: example_app_def example_files_def)
  have ca: "fileIndex ?a = 2 \<and> currentFile (state ?a) = Some ''/pics/c.mp4''"
    by (simp add: example_app_def)
  have cb: "currentFile (state ?b) = Some ''/pics/a.png''"
    by (simp add: example_app_def)
  from navigation_clamps [of ?a] ha
  have "\<exists>a'. nextFile ?a = Inr a' \<and> fileIndex a' = fileIndex ?a \<and> state a' = state ?a"
    by blast
  moreover from navigation_clamps [of ?b] hb
  have "\<exists>a'. prevFile ?b = Inr a' \<and> fileIndex a' = fileIndex ?b \<and> state a' = state ?b"
    by blast
  ultimately show ?thesis using ha hb ca cb by auto
qed

section \<open>Volume of a new video element\<close>

lemma getVideo_volume_nonzero:
  "volume (state a) \<noteq> 0 \<Longrightarrow> video_volume (getVideo f a) = volume (state a)"
  by (simp add: getVideo_def)

text \<open>
  C9. A persisted volume is applied to a new video element. The code does so for every
  volume but \<open>0\<close>: a session that persisted the volume \<open>0\<close> loads it back as \<open>0\<close>,
  and \<^verbatim>\<open>_getVideo\<close> then gives the new element the volume \<open>1\<close>, because
  \<^verbatim>\<open>this.state.volume || 1.0\<close> takes \<open>0\<close> for a missing value.
\<close>

theorem muted_volume_not_restored:
  "volume (state (load muted_app)) = 0 \<and>
   video_volume (getVideo ''/pics/c.mp4'' (load muted_app)) = 1"
  by (simp add: muted_app_def load_def getVideo_def example_app_def defaultState_def Let_def)

section \<open>Clamping and pinning the pan position\<close>

lemma resolution_positive:
  assumes "media st = Some (ImageItem w h) \<or> media st = Some (VideoItem w h)" "0 < w" "0 < h"
  shows "resolution st = Inr (Some (of_nat w), Some (of_nat h))"
  using assms by (auto simp: resolution_def)

text \<open>
  C8. \<^verbatim>\<open>setObjectPosition\<close> clamps both coordinates to \<open>[0, 100]\<close> and then pins one
  axis to \<open>50\<close>: \<open>x\<close> when the direction is up, which is when the aspect ratio of the
  media is strictly less than that of the viewport, and \<open>y\<close> otherwise. This is so for
  an image and for a video alike, of any positive size in a viewport of positive size;
  the pair is applied exactly when the fit mode is cover or none and the media is wider
  or higher than the viewport, and otherwise nothing changes. Without a media item the
  call throws. For a 16:9 image in a 4:3 viewport the direction is down and the input
  \<open>(130, -10)\<close> yields \<open>(100, 50)\<close>.
\<close>

theorem clampPosition_pins:
  "clampPosition Up x y = (50, max 0 (min 100 y)) \<and>
   clampPosition Down x y = (max 0 (min 100 x), 50) \<and>
   0 \<le> fst (clampPosition d x y) \<and> fst (clampPosition d x y) \<le> 100 \<and>
   0 \<le> snd (clampPosition d x y) \<and> snd (clampPosition d x y) \<le> 100 \<and>
   ((media st = Some (ImageItem w h) \<or> media st = Some (VideoItem w h)) \<and> 0 < w \<and> 0 < h \<and>
    0 < cWidth st \<and> 0 < cHeight st \<longrightarrow>
      (direction_of st = Inr Up \<longleftrightarrow> of_nat w / of_nat h < cWidth st / cHeight st) \<and>
      (direction_of st = Inr Down \<longleftrightarrow> \<not> of_nat w / of_nat h < cWidth st / cHeight st) \<and>
      isMediaBigger st =
        Inr ((fitCover st \<or> fitNone st) \<and> (cWidth st < of_nat w \<or> cHeight st < of_nat h)) \<and>
      setObjectPosition x y st =
        Inr (if (fitCover st \<or> fitNone st) \<and> (cWidth st < of_nat w \<or> cHeight st < of_nat h)
             then st\<lparr>objectPosition :=
                       Some (if of_nat w / of_nat h < cWidth st / cHeight st
                             then (50, max 0 (min 100 y))
                             else (max 0 (min 100 x), 50))\<rparr>
             else st)) \<and>
   (media st = None \<longrightarrow> setObjectPosition x y st = Inl TypeError) \<and>
   (direction_of st = Inr d \<and> isMediaBigger st = Inr True \<longrightarrow>
      setObjectPosition x y st = Inr (st\<lparr>objectPosition := Some (clampPosition d x y)\<rparr>)) \<and>
   (direction_of st = Inr d \<and> isMediaBigger st = Inr False \<longrightarrow>
      setObjectPosition x y st = Inr st) \<and>
   direction_of wide_stage = Inr Down \<and>
   setObjectPosition 130 (- 10) wide_stage = Inr (wide_stage\<lparr>objectPosition := Some (100, 50)\<rparr>)"
proof (intro conjI impI)
  show "clampPosition Up x y = (50, max 0 (min 100 y))" by (simp add: clampPosition_def)
  show "clampPosition Down x y = (max 0 (min 100 x), 50)" by (simp add: clampPosition_def)
  show "0 \<le> fst (clampPosition d x y)" by (simp add: clampPosition_def Let_def)
  show "fst (clampPosition d x y) \<le> 100" by (simp add: clampPosition_def Let_def)
  show "0 \<le> snd (clampPosition d x y)" by (simp add: clampPosition_def Let_def)
  show "snd (clampPosition d x y) \<le> 100" by (simp add: clampPosition_def Let_def)
next
  assume h: "(media st = Some (ImageItem w h) \<or> media st = Some (VideoItem w h)) \<and> 0 < w \<and> 0 < h \<and>
    0 < cWidth st \<and> 0 < cHeight st"
  then have r: "resolution st = Inr (Some (of_nat w), Some (of_nat h))"
    by (simp add: resolution_positive)
  have q: "js_div (Some (of_nat w)) (Some (of_nat h)) = Num (of_nat w / of_nat h)"
    "js_div (Some (cWidth st)) (Some (cHeight st)) = Num (cWidth st / cHeight st)"
    using h by (simp_all add: js_div_def)
  show up: "direction_of st = Inr Up \<longleftrightarrow> of_nat w / of_nat h < cWidth st / cHeight st"
    by (simp add: direction_of_def r q)
  show dn: "direction_of st = Inr Down \<longleftrightarrow> \<not> of_nat w / of_nat h < cWidth st / cHeight st"
    by (simp add: direction_of_def r q)
  show b: "isMediaBigger st =
        Inr ((fitCover st \<or> fitNone st) \<and> (cWidth st < of_nat w \<or> cHeight st < of_nat h))"
    by (auto simp: isMediaBigger_def r)
  show "setObjectPosition x y st =
        Inr (if (fitCover st \<or> fitNone st) \<and> (cWidth st < of_nat w \<or> cHeight st < of_nat h)
             then st\<lparr>objectPosition :=
                       Some (if of_nat w / of_nat h < cWidth st / cHeight st
                             then (50, max 0 (min 100 y))
                             else (max 0 (min 100 x), 50))\<rparr>
             else st)"
    by (simp add: setObjectPosition_def direction_of_def r q b clampPosition_def)
next
  assume "media st = None"
  then show "setObjectPosition x y st = Inl TypeError"
    by (simp add: setObjectPosition_def direction_of_def resolution_def)
next
  assume "direction_of st = Inr d \<and> isMediaBigger st = Inr True"
  then show "setObjectPosition x y st = Inr (st\<lparr>objectPosition := Some (clampPosition d x y)\<rparr>)"
    by (simp add: setObjectPosition_def)
next
  assume "direction_of st = Inr d \<and> isMediaBigger st = Inr False"
  then show "setObjectPosition x y st = Inr st"
    by (simp add: setObjectPosition_def)
next
  show d: "direction_of wide_stage = Inr Down"
    by (simp add: direction_of_def resolution_def js_div_def wide_stage_def)
  have b: "isMediaBigger wide_stage = Inr True"
    by (simp add: isMediaBigger_def resolution_def wide_stage_def)
  show "setObjectPosition 130 (- 10) wide_stage = Inr (wide_stage\<lparr>objectPosition := Some (100, 50)\<rparr>)"
    by (simp add: setObjectPosition_def d b clampPosition_def)
qed

theorem clampPosition_pins_witness:
  "media tall_stage = Some (ImageItem 600 1600) \<and> 0 < cWidth tall_stage \<and> 0 < cHeight tall_stage \<and>
   direction_of tall_stage = Inr Up \<and> isMediaBigger tall_stage = Inr True \<and>
   setObjectPosition 130 (- 10) tall_stage = Inr (tall_stage\<lparr>objectPosition := Some (50, 0)\<rparr>) \<and>
   media tall_video_stage = Some (VideoItem 600 1600) \<and>
   direction_of tall_video_stage = Inr Up \<and> isMediaBigger tall_video_stage = Inr True \<and>
   setObjectPosition 130 (- 10) tall_video_stage
     = Inr (tall_video_stage\<lparr>objectPosition := Some (50, 0)\<rparr>) \<and>
   media empty_stage = None \<and> setObjectPosition 130 (- 10) empty_stage = Inl TypeError \<and>
   direction_of contain_stage = Inr Down \<and> isMediaBigger contain_stage = Inr False \<and>
   setObjectPosition 130 (- 10) contain_stage = Inr contain_stage"
proof -
  note ti = clampPosition_pins [where x = 130 and y = "- 10" and d = Up and st = tall_stage
      and w = 600 and h = 1600]
  note tv = clampPosition_pins [where x = 130 and y = "- 10" and d = Up and st = tall_video_stage
      and w = 600 and h = 1600]
  note te = clampPosition_pins [where x = 130 and y = "- 10" and st = empty_stage]
  note tc = clampPosition_pins [where x = 130 and y = "- 10" and d = Down and st = contain_stage
      and w = 1920 and h = 1080]
  have mi: "(media tall_stage = Some (ImageItem 600 1600) \<or> media tall_stage = Some (VideoItem 600 1600)) \<and>
      (0::nat) < 600 \<and> (0::nat) < 1600 \<and> 0 < cWidth tall_stage \<and> 0 < cHeight tall_stage"
    by (simp add: tall_stage_def)
  have mv: "(media tall_video_stage = Some (ImageItem 600 1600) \<or>
      media tall_video_stage = Some (VideoItem 600 1600)) \<and>
      (0::nat) < 600 \<and> (0::nat) < 1600 \<and> 0 < cWidth tall_video_stage \<and> 0 < cHeight tall_video_stage"
    by (simp add: tall_video_stage_def)
  have mc: "(media contain_stage = Some (ImageItem 1920 1080) \<or>
      media contain_stage = Some (VideoItem 1920 1080)) \<and>
      (0::nat) < 1920 \<and> (0::nat) < 1080 \<and> 0 < cWidth contain_stage \<and> 0 < cHeight contain_stage"
    by (simp add: contain_stage_def)
  have me: "media empty_stage = None" by (simp add: empty_stage_def)
  have f: "media tall_stage = Some (ImageItem 600 1600)" "0 < cWidth tall_stage" "0 < cHeight tall_stage"
    "media tall_video_stage = Some (VideoItem 600 1600)"
    by (simp_all add: tall_stage_def tall_video_stage_def)
  from ti mi have i1: "direction_of tall_stage = Inr Up \<longleftrightarrow>
      (of_nat 600 :: rat) / of_nat 1600 < cWidth tall_stage / cHeight tall_stage"
    and i2: "isMediaBigger tall_stage = Inr ((fitCover tall_stage \<or> fitNone tall_stage) \<and>
      (cWidth tall_stage < of_nat 600 \<or> cHeight tall_stage < of_nat 1600))"
    by blast+
  have di: "direction_of tall_stage = Inr Up" unfolding i1 by (simp add: tall_stage_def)
  have bi: "isMediaBigger tall_stage = Inr True" unfolding i2 by (simp add: tall_stage_def)
  from ti di bi have si: "setObjectPosition 130 (- 10) tall_stage
      = Inr (tall_stage\<lparr>objectPosition := Some (clampPosition Up 130 (- 10))\<rparr>)" by blast
  from ti have c: "clampPosition Up 130 (- 10) = (50, max 0 (min 100 (- 10)))" by blast
  from tv mv have v1: "direction_of tall_video_stage = Inr Up \<longleftrightarrow>
      (of_nat 600 :: rat) / of_nat 1600 < cWidth tall_video_stage / cHeight tall_video_stage"
    and v2: "isMediaBigger tall_video_stage = Inr ((fitCover tall_video_stage \<or> fitNone tall_video_stage) \<and>
      (cWidth tall_video_stage < of_nat 600 \<or> cHeight tall_video_stage < of_nat 1600))"
    by blast+
  have dv: "direction_of tall_video_stage = Inr Up" unfolding v1 by (simp add: tall_video_stage_def)
  have bv: "isMediaBigger tall_video_stage = Inr True" unfolding v2 by (simp add: tall_video_stage_def)
  from tv dv bv have sv: "setObjectPosition 130 (- 10) tall_video_stage
      = Inr (tall_video_stage\<lparr>objectPosition := Some (clampPosition Up 130 (- 10))\<rparr>)" by blast
  from te me have se: "setObjectPosition 130 (- 10) empty_stage = Inl TypeError" by blast
  from tc mc have c1: "direction_of contain_stage = Inr Down \<longleftrightarrow>
      \<not> (of_nat 1920 :: rat) / of_nat 1080 < cWidth contain_stage / cHeight contain_stage"
    and c2: "isMediaBigger contain_stage = Inr ((fitCover contain_stage \<or> fitNone contain_stage) \<and>
      (cWidth contain_stage < of_nat 1920 \<or> cHeight contain_stage < of_nat 1080))"
    by blast+
  have dc: "direction_of contain_stage = Inr Down" unfolding c1 by (simp add: contain_stage_def)
  have bc: "isMediaBigger contain_stage = Inr False" unfolding c2 by (simp add: contain_stage_def)
  from tc dc bc have sc: "setObjectPosition 130 (- 10) contain_stage = Inr contain_stage" by blast
  show ?thesis using f di bi si c dv bv sv me se dc bc sc by simp
qed

section \<open>Resolving an image\<close>

lemma map_of_update_entry:
  "map_of (update_entry k g c) k' = (if k' = k then map_option g (map_of c k) else map_of c k')"
  by (induction c) (auto simp: update_entry_def)

lemma keys_update_entry: "map fst (update_entry k g c) = map fst c"
  by (induction c) (auto simp: update_entry_def)

lemma length_update_entry: "length (update_entry k g c) = length c"
  by (simp add: update_entry_def)

lemma map_of_append_fresh:
  "map_of c k = None \<Longrightarrow> map_of (c @ [(k, e)]) k' = (if k' = k then Some e else map_of c k')"
  by (induction c) auto

lemma update_entry_absent: "map_of c k = None \<Longrightarrow> update_entry k g c = c"
  by (induction c) (auto simp: update_entry_def split: if_splits)

lemma update_entry_append:
  "update_entry k g (c @ d) = update_entry k g c @ update_entry k g d"
  by (simp add: update_entry_def)

lemma update_entry_single: "update_entry k g [(k, e)] = [(k, g e)]"
  by (simp add: update_entry_def)

lemma getImage_miss:
  assumes "map_of (fileCache a) f = None"
  shows "getImage f a =
     (\<lparr>ident = created a,
       src = GetFile f (if endsWith f ''.gif'' then Some (clock a (Suc (ticks a))) else None),
       classList = [''media-item'']\<rparr>,
      a\<lparr>fileCache := fileCache a @
           [(f, \<lparr>img = \<lparr>ident = created a,
                        src = GetFile f (if endsWith f ''.gif'' then Some (clock a (Suc (ticks a))) else None),
                        classList = [''media-item'']\<rparr>,
                 ts = of_int (clock a (ticks a)) / 1000\<rparr>)],
         ticks := (if endsWith f ''.gif'' then Suc (Suc (ticks a)) else Suc (ticks a)),
         created := Suc (created a)\<rparr>)"
  using assms
  by (simp add: getImage_def newImage_def date_now_def Let_def map_of_update_entry
      map_of_append_fresh update_entry_append update_entry_absent update_entry_single
      del: map_of_append)

lemma getImage_hit:
  assumes "map_of (fileCache a) f = Some e"
  shows "getImage f a =
     (if endsWith f ''.gif'' then (img e)\<lparr>src := GetFile f (Some (clock a (Suc (ticks a))))\<rparr> else img e,
      a\<lparr>fileCache :=
           (if endsWith f ''.gif''
            then update_entry f (\<lambda>e. e\<lparr>img := (img e)\<lparr>src := GetFile f (Some (clock a (Suc (ticks a))))\<rparr>\<rparr>)
                   (update_entry f (\<lambda>e. e\<lparr>ts := of_int (clock a (ticks a)) / 1000\<rparr>) (fileCache a))
            else update_entry f (\<lambda>e. e\<lparr>ts := of_int (clock a (ticks a)) / 1000\<rparr>) (fileCache a)),
         ticks := (if endsWith f ''.gif'' then Suc (Suc (ticks a)) else Suc (ticks a))\<rparr>)"
  using assms
  by (simp add: getImage_def date_now_def Let_def map_of_update_entry del: map_of_append)

lemma getImage_cached: "map_of (fileCache (snd (getImage f a))) f \<noteq> None"
  by (cases "map_of (fileCache a) f")
     (simp_all add: getImage_miss getImage_hit map_of_append_fresh map_of_update_entry
        del: map_of_append)

lemma getImage_keys:
  "map fst (fileCache (snd (getImage f a))) =
     (if map_of (fileCache a) f = None then map fst (fileCache a) @ [f] else map fst (fileCache a))"
  by (cases "map_of (fileCache a) f")
     (simp_all add: getImage_miss getImage_hit keys_update_entry)

lemma getImage_distinct:
  "distinct (map fst (fileCache a)) \<Longrightarrow> distinct (map fst (fileCache (snd (getImage f a))))"
  by (auto simp: getImage_keys map_of_eq_None_iff)


lemma getImage_entry:
  "\<exists>e'. map_of (fileCache (snd (getImage f a))) f = Some e' \<and> img e' = fst (getImage f a) \<and>
      ts e' = of_int (clock a (ticks a)) / 1000"
  by (cases "map_of (fileCache a) f")
     (auto simp: getImage_miss getImage_hit map_of_append_fresh map_of_update_entry
        simp del: map_of_append)

lemma getImage_others:
  "g \<noteq> f \<Longrightarrow> map_of (fileCache (snd (getImage f a))) g = map_of (fileCache a) g"
  by (cases "map_of (fileCache a) f")
     (auto simp: getImage_miss getImage_hit map_of_append_fresh map_of_update_entry
        simp del: map_of_append)

lemma getImage_clock:
  "clock (snd (getImage f a)) = clock a \<and>
   ticks (snd (getImage f a)) = (if endsWith f ''.gif'' then Suc (Suc (ticks a)) else Suc (ticks a))"
  by (cases "map_of (fileCache a) f") (simp_all add: getImage_miss getImage_hit)

text \<open>
  C7, as the code has it. A path that is not cached gets a new image, recorded at the
  end of the cache with the reading of the clock as its time stamp. A cached path that
  does not end in \<^verbatim>\<open>.gif\<close> returns the cached handle itself, creates nothing and
  changes nothing but the time stamp of its own entry; so resolving such a path twice in
  a row returns the identical handle both times. The entry of the resolved path always
  holds the returned handle and the new time stamp, and no other entry changes. A path
  that ends in \<^verbatim>\<open>.gif\<close> has its URL reassigned at every resolution, cached or not, with
  the reading of the clock taken then as the token: the handle is otherwise the cached
  one, and the URL differs from that of the resolution before exactly when the clock
  has advanced between the two readings.
\<close>

theorem getImage_reuse:
  "(map_of (fileCache a) f = None \<longrightarrow>
      getImage f a =
        (\<lparr>ident = created a,
          src = GetFile f (if endsWith f ''.gif'' then Some (clock a (Suc (ticks a))) else None),
          classList = [''media-item'']\<rparr>,
         a\<lparr>fileCache := fileCache a @
              [(f, \<lparr>img = \<lparr>ident = created a,
                           src = GetFile f (if endsWith f ''.gif''
                                            then Some (clock a (Suc (ticks a))) else None),
                           classList = [''media-item'']\<rparr>,
                    ts = of_int (clock a (ticks a)) / 1000\<rparr>)],
            ticks := (if endsWith f ''.gif'' then Suc (Suc (ticks a)) else Suc (ticks a)),
            created := Suc (created a)\<rparr>)) \<and>
   (\<not> endsWith f ''.gif'' \<and> map_of (fileCache a) f = Some e \<longrightarrow>
      getImage f a =
        (img e,
         a\<lparr>fileCache := update_entry f (\<lambda>e. e\<lparr>ts := of_int (clock a (ticks a)) / 1000\<rparr>) (fileCache a),
            ticks := Suc (ticks a)\<rparr>) \<and>
      map_of (fileCache (snd (getImage f a))) f = Some (e\<lparr>ts := of_int (clock a (ticks a)) / 1000\<rparr>)) \<and>
   (endsWith f ''.gif'' \<and> map_of (fileCache a) f = Some e \<longrightarrow>
      getImage f a =
        ((img e)\<lparr>src := GetFile f (Some (clock a (Suc (ticks a))))\<rparr>,
         a\<lparr>fileCache :=
              update_entry f (\<lambda>e. e\<lparr>img := (img e)\<lparr>src := GetFile f (Some (clock a (Suc (ticks a))))\<rparr>\<rparr>)
                (update_entry f (\<lambda>e. e\<lparr>ts := of_int (clock a (ticks a)) / 1000\<rparr>) (fileCache a)),
            ticks := Suc (Suc (ticks a))\<rparr>) \<and>
      map_of (fileCache (snd (getImage f a))) f =
        Some (e\<lparr>ts := of_int (clock a (ticks a)) / 1000,
                img := (img e)\<lparr>src := GetFile f (Some (clock a (Suc (ticks a))))\<rparr>\<rparr>)) \<and>
   (\<exists>e'. map_of (fileCache (snd (getImage f a))) f = Some e' \<and> img e' = fst (getImage f a) \<and>
      ts e' = of_int (clock a (ticks a)) / 1000) \<and>
   (g \<noteq> f \<longrightarrow> map_of (fileCache (snd (getImage f a))) g = map_of (fileCache a) g) \<and>
   (\<not> endsWith f ''.gif'' \<longrightarrow>
      fst (getImage f (snd (getImage f a))) = fst (getImage f a) \<and>
      created (snd (getImage f (snd (getImage f a)))) = created (snd (getImage f a)) \<and>
      (\<exists>e2. map_of (fileCache (snd (getImage f (snd (getImage f a))))) f = Some e2 \<and>
         img e2 = fst (getImage f a) \<and> ts e2 = of_int (clock a (Suc (ticks a))) / 1000)) \<and>
   (endsWith f ''.gif'' \<longrightarrow>
      src (fst (getImage f a)) = GetFile f (Some (clock a (Suc (ticks a)))) \<and>
      ident (fst (getImage f (snd (getImage f a)))) = ident (fst (getImage f a)) \<and>
      classList (fst (getImage f (snd (getImage f a)))) = classList (fst (getImage f a)) \<and>
      created (snd (getImage f (snd (getImage f a)))) = created (snd (getImage f a)) \<and>
      src (fst (getImage f (snd (getImage f a)))) = GetFile f (Some (clock a (Suc (Suc (Suc (ticks a)))))) \<and>
      (src (fst (getImage f (snd (getImage f a)))) = src (fst (getImage f a))
         \<longleftrightarrow> clock a (Suc (Suc (Suc (ticks a)))) = clock a (Suc (ticks a))))"
proof (intro conjI impI)
  assume "map_of (fileCache a) f = None"
  then show "getImage f a =
        (\<lparr>ident = created a,
          src = GetFile f (if endsWith f ''.gif'' then Some (clock a (Suc (ticks a))) else None),
          classList = [''media-item'']\<rparr>,
         a\<lparr>fileCache := fileCache a @
              [(f, \<lparr>img = \<lparr>ident = created a,
                           src = GetFile f (if endsWith f ''.gif''
                                            then Some (clock a (Suc (ticks a))) else None),
                           classList = [''media-item'']\<rparr>,
                    ts = of_int (clock a (ticks a)) / 1000\<rparr>)],
            ticks := (if endsWith f ''.gif'' then Suc (Suc (ticks a)) else Suc (ticks a)),
            created := Suc (created a)\<rparr>)"
    by (rule getImage_miss)
next
  assume h: "\<not> endsWith f ''.gif'' \<and> map_of (fileCache a) f = Some e"
  then have e: "map_of (fileCache a) f = Some e" by simp
  from h show g: "getImage f a =
        (img e,
         a\<lparr>fileCache := update_entry f (\<lambda>e. e\<lparr>ts := of_int (clock a (ticks a)) / 1000\<rparr>) (fileCache a),
            ticks := Suc (ticks a)\<rparr>)"
    by (simp add: getImage_hit [OF e])
  show "map_of (fileCache (snd (getImage f a))) f = Some (e\<lparr>ts := of_int (clock a (ticks a)) / 1000\<rparr>)"
    unfolding g using e by (simp add: map_of_update_entry)
next
  assume h: "endsWith f ''.gif'' \<and> map_of (fileCache a) f = Some e"
  then have e: "map_of (fileCache a) f = Some e" by simp
  from h show g: "getImage f a =
        ((img e)\<lparr>src := GetFile f (Some (clock a (Suc (ticks a))))\<rparr>,
         a\<lparr>fileCache :=
              update_entry f (\<lambda>e. e\<lparr>img := (img e)\<lparr>src := GetFile f (Some (clock a (Suc (ticks a))))\<rparr>\<rparr>)
                (update_entry f (\<lambda>e. e\<lparr>ts := of_int (clock a (ticks a)) / 1000\<rparr>) (fileCache a)),
            ticks := Suc (Suc (ticks a))\<rparr>)"
    by (simp add: getImage_hit [OF e])
  show "map_of (fileCache (snd (getImage f a))) f =
        Some (e\<lparr>ts := of_int (clock a (ticks a)) / 1000,
                img := (img e)\<lparr>src := GetFile f (Some (clock a (Suc (ticks a))))\<rparr>\<rparr>)"
    unfolding g using e by (simp add: map_of_update_entry)
next
  show "\<exists>e'. map_of (fileCache (snd (getImage f a))) f = Some e' \<and> img e' = fst (getImage f a) \<and>
      ts e' = of_int (clock a (ticks a)) / 1000"
    by (rule getImage_entry)
next
  assume "g \<noteq> f"
  then show "map_of (fileCache (snd (getImage f a))) g = map_of (fileCache a) g"
    by (rule getImage_others)
next
  assume ng: "\<not> endsWith f ''.gif''"
  let ?a1 = "snd (getImage f a)"
  from getImage_entry [of f a] obtain e1 where e1: "map_of (fileCache ?a1) f = Some e1"
    and r: "img e1 = fst (getImage f a)" by blast
  have t: "ticks ?a1 = Suc (ticks a)" "clock ?a1 = clock a"
    using ng getImage_clock [of f a] by simp_all
  show "fst (getImage f ?a1) = fst (getImage f a)"
    using ng r by (simp add: getImage_hit [OF e1])
  show "created (snd (getImage f ?a1)) = created ?a1"
    using ng by (simp add: getImage_hit [OF e1])
  from getImage_entry [of f ?a1] t r ng
  show "\<exists>e2. map_of (fileCache (snd (getImage f ?a1))) f = Some e2 \<and>
         img e2 = fst (getImage f a) \<and> ts e2 = of_int (clock a (Suc (ticks a))) / 1000"
    by (auto simp: getImage_hit [OF e1])
next
  assume gf: "endsWith f ''.gif''"
  let ?a1 = "snd (getImage f a)"
  from getImage_entry [of f a] obtain e1 where e1: "map_of (fileCache ?a1) f = Some e1"
    and r: "img e1 = fst (getImage f a)" by blast
  have t: "ticks ?a1 = Suc (Suc (ticks a))" "clock ?a1 = clock a"
    using gf getImage_clock [of f a] by simp_all
  show s1: "src (fst (getImage f a)) = GetFile f (Some (clock a (Suc (ticks a))))"
    using gf by (cases "map_of (fileCache a) f") (simp_all add: getImage_miss getImage_hit)
  show "ident (fst (getImage f ?a1)) = ident (fst (getImage f a))"
    using gf r by (simp add: getImage_hit [OF e1])
  show "classList (fst (getImage f ?a1)) = classList (fst (getImage f a))"
    using gf r by (simp add: getImage_hit [OF e1])
  show "created (snd (getImage f ?a1)) = created ?a1"
    using gf by (simp add: getImage_hit [OF e1])
  show s2: "src (fst (getImage f ?a1)) = GetFile f (Some (clock a (Suc (Suc (Suc (ticks a))))))"
    using gf t by (simp add: getImage_hit [OF e1])
  show "src (fst (getImage f ?a1)) = src (fst (getImage f a))
         \<longleftrightarrow> clock a (Suc (Suc (Suc (ticks a)))) = clock a (Suc (ticks a))"
    unfolding s1 s2 by simp
qed

theorem getImage_reuse_witness:
  "map_of (fileCache warm_app) ''/pics/c.png'' = None \<and>
   fst (getImage ''/pics/c.png'' warm_app)
     = \<lparr>ident = 2, src = GetFile ''/pics/c.png'' None, classList = [''media-item'']\<rparr> \<and>
   fileCache (snd (getImage ''/pics/c.png'' warm_app))
     = fileCache warm_app @
         [(''/pics/c.png'',
           \<lparr>img = \<lparr>ident = 2, src = GetFile ''/pics/c.png'' None, classList = [''media-item'']\<rparr>,
            ts = 0\<rparr>)] \<and>
   created (snd (getImage ''/pics/c.png'' warm_app)) = 3 \<and>
   \<not> endsWith ''/pics/a.png'' ''.gif'' \<and>
   map_of (fileCache warm_app) ''/pics/a.png'' = Some warm_png_entry \<and>
   fst (getImage ''/pics/a.png'' warm_app) = img warm_png_entry \<and>
   map_of (fileCache (snd (getImage ''/pics/a.png'' warm_app))) ''/pics/a.png''
     = Some (warm_png_entry\<lparr>ts := 0\<rparr>) \<and>
   map_of (fileCache (snd (getImage ''/pics/a.png'' warm_app))) ''/pics/B.gif''
     = Some warm_gif_entry \<and>
   fst (getImage ''/pics/a.png'' (snd (getImage ''/pics/a.png'' warm_app))) = img warm_png_entry \<and>
   endsWith ''/pics/B.gif'' ''.gif'' \<and>
   map_of (fileCache warm_app) ''/pics/B.gif'' = Some warm_gif_entry \<and>
   fst (getImage ''/pics/B.gif'' warm_app)
     = \<lparr>ident = 1, src = GetFile ''/pics/B.gif'' (Some 1000), classList = [''media-item'']\<rparr> \<and>
   src (fst (getImage ''/pics/B.gif'' (snd (getImage ''/pics/B.gif'' warm_app))))
     = GetFile ''/pics/B.gif'' (Some 3000) \<and>
   src (fst (getImage ''/pics/B.gif'' (snd (getImage ''/pics/B.gif'' warm_app))))
     \<noteq> src (fst (getImage ''/pics/B.gif'' warm_app))"
proof -
  note tc = getImage_reuse [where a = warm_app and f = "''/pics/c.png''"]
  note tp = getImage_reuse [where a = warm_app and f = "''/pics/a.png''" and e = warm_png_entry
      and g = "''/pics/B.gif''"]
  note tg = getImage_reuse [where a = warm_app and f = "''/pics/B.gif''" and e = warm_gif_entry]
  have p: "\<not> endsWith ''/pics/a.png'' ''.gif''" by (simp add: endsWith_def)
  have g: "endsWith ''/pics/B.gif'' ''.gif''" by (simp add: endsWith_def)
  have pc: "\<not> endsWith ''/pics/c.png'' ''.gif''" by (simp add: endsWith_def)
  have mc: "map_of (fileCache warm_app) ''/pics/c.png'' = None" by (simp add: warm_app_def)
  have mp: "map_of (fileCache warm_app) ''/pics/a.png'' = Some warm_png_entry"
    by (simp add: warm_app_def)
  have mg: "map_of (fileCache warm_app) ''/pics/B.gif'' = Some warm_gif_entry"
    by (simp add: warm_app_def)
  have ne: "''/pics/B.gif'' \<noteq> ''/pics/a.png''" by simp
  have c: "created warm_app = 2" "ticks warm_app = 0" "clock warm_app = (\<lambda>n. 1000 * int n)"
    by (simp_all add: warm_app_def example_app_def)
  from tc mc have "getImage ''/pics/c.png'' warm_app =
        (\<lparr>ident = created warm_app,
          src = GetFile ''/pics/c.png'' (if endsWith ''/pics/c.png'' ''.gif''
                  then Some (clock warm_app (Suc (ticks warm_app))) else None),
          classList = [''media-item'']\<rparr>,
         warm_app\<lparr>fileCache := fileCache warm_app @
              [(''/pics/c.png'', \<lparr>img = \<lparr>ident = created warm_app,
                           src = GetFile ''/pics/c.png'' (if endsWith ''/pics/c.png'' ''.gif''
                                            then Some (clock warm_app (Suc (ticks warm_app))) else None),
                           classList = [''media-item'']\<rparr>,
                    ts = of_int (clock warm_app (ticks warm_app)) / 1000\<rparr>)],
            ticks := (if endsWith ''/pics/c.png'' ''.gif'' then Suc (Suc (ticks warm_app))
                      else Suc (ticks warm_app)),
            created := Suc (created warm_app)\<rparr>)"
    by blast
  then have r1: "fst (getImage ''/pics/c.png'' warm_app)
     = \<lparr>ident = 2, src = GetFile ''/pics/c.png'' None, classList = [''media-item'']\<rparr>"
    and r2: "fileCache (snd (getImage ''/pics/c.png'' warm_app))
     = fileCache warm_app @
         [(''/pics/c.png'',
           \<lparr>img = \<lparr>ident = 2, src = GetFile ''/pics/c.png'' None, classList = [''media-item'']\<rparr>,
            ts = 0\<rparr>)]"
    and r3: "created (snd (getImage ''/pics/c.png'' warm_app)) = 3"
    using pc c by simp_all
  from tp p mp have gp: "getImage ''/pics/a.png'' warm_app =
        (img warm_png_entry,
         warm_app\<lparr>fileCache := update_entry ''/pics/a.png''
                      (\<lambda>e. e\<lparr>ts := of_int (clock warm_app (ticks warm_app)) / 1000\<rparr>)
                      (fileCache warm_app),
            ticks := Suc (ticks warm_app)\<rparr>)"
    by blast
  have r5: "fst (getImage ''/pics/a.png'' warm_app) = img warm_png_entry"
    unfolding gp by simp
  from tp p mp have "map_of (fileCache (snd (getImage ''/pics/a.png'' warm_app))) ''/pics/a.png''
      = Some (warm_png_entry\<lparr>ts := of_int (clock warm_app (ticks warm_app)) / 1000\<rparr>)"
    by blast
  then have r4: "map_of (fileCache (snd (getImage ''/pics/a.png'' warm_app))) ''/pics/a.png''
      = Some (warm_png_entry\<lparr>ts := 0\<rparr>)"
    using c by simp
  from tp ne have "map_of (fileCache (snd (getImage ''/pics/a.png'' warm_app))) ''/pics/B.gif''
      = map_of (fileCache warm_app) ''/pics/B.gif''" by blast
  then have r6: "map_of (fileCache (snd (getImage ''/pics/a.png'' warm_app))) ''/pics/B.gif''
      = Some warm_gif_entry" using mg by simp
  from tp p have "fst (getImage ''/pics/a.png'' (snd (getImage ''/pics/a.png'' warm_app)))
      = fst (getImage ''/pics/a.png'' warm_app)" by blast
  then have r7: "fst (getImage ''/pics/a.png'' (snd (getImage ''/pics/a.png'' warm_app)))
      = img warm_png_entry" using r5 by simp
  from tg g mg have gg: "getImage ''/pics/B.gif'' warm_app =
        ((img warm_gif_entry)\<lparr>src := GetFile ''/pics/B.gif'' (Some (clock warm_app (Suc (ticks warm_app))))\<rparr>,
         warm_app\<lparr>fileCache :=
              update_entry ''/pics/B.gif''
                (\<lambda>e. e\<lparr>img := (img e)\<lparr>src := GetFile ''/pics/B.gif''
                                              (Some (clock warm_app (Suc (ticks warm_app))))\<rparr>\<rparr>)
                (update_entry ''/pics/B.gif''
                   (\<lambda>e. e\<lparr>ts := of_int (clock warm_app (ticks warm_app)) / 1000\<rparr>)
                   (fileCache warm_app)),
            ticks := Suc (Suc (ticks warm_app))\<rparr>)"
    by blast
  have "fst (getImage ''/pics/B.gif'' warm_app)
      = (img warm_gif_entry)\<lparr>src := GetFile ''/pics/B.gif'' (Some (clock warm_app (Suc (ticks warm_app))))\<rparr>"
    unfolding gg by simp
  then have r8: "fst (getImage ''/pics/B.gif'' warm_app)
      = \<lparr>ident = 1, src = GetFile ''/pics/B.gif'' (Some 1000), classList = [''media-item'']\<rparr>"
    using c by (simp add: warm_gif_entry_def)
  from tg g have "src (fst (getImage ''/pics/B.gif'' (snd (getImage ''/pics/B.gif'' warm_app))))
      = GetFile ''/pics/B.gif'' (Some (clock warm_app (Suc (Suc (Suc (ticks warm_app))))))"
    by blast
  then have r9: "src (fst (getImage ''/pics/B.gif'' (snd (getImage ''/pics/B.gif'' warm_app))))
      = GetFile ''/pics/B.gif'' (Some 3000)"
    using c by simp
  have r10: "src (fst (getImage ''/pics/B.gif'' (snd (getImage ''/pics/B.gif'' warm_app))))
     \<noteq> src (fst (getImage ''/pics/B.gif'' warm_app))"
    unfolding r9 r8 by simp
  show ?thesis
    by (intro conjI) (fact mc, fact r1, fact r2, fact r3, fact p, fact mp, fact r5, fact r4,
        fact r6, fact r7, fact g, fact mg, fact r8, fact r9, fact r10)
qed

text \<open>
  C7 with a fresh token at every resolution does not hold: the token is
  \<^verbatim>\<open>String(Date.now())\<close>, and two resolutions of \<open>/pics/B.gif\<close> within the same
  millisecond give the handle the same URL twice.
\<close>

theorem same_millisecond_same_token:
  "endsWith ''/pics/B.gif'' ''.gif'' \<and>
   src (fst (getImage ''/pics/B.gif'' still_app)) = GetFile ''/pics/B.gif'' (Some 1000) \<and>
   src (fst (getImage ''/pics/B.gif'' (snd (getImage ''/pics/B.gif'' still_app))))
     = GetFile ''/pics/B.gif'' (Some 1000)"
proof -
  have g: "endsWith ''/pics/B.gif'' ''.gif''" by (simp add: endsWith_def)
  have m: "map_of (fileCache still_app) ''/pics/B.gif'' = Some warm_gif_entry"
    by (simp add: still_app_def warm_app_def)
  have c: "clock still_app = (\<lambda>n. 1000)" by (simp add: still_app_def)
  let ?a1 = "snd (getImage ''/pics/B.gif'' still_app)"
  have s1: "src (fst (getImage ''/pics/B.gif'' still_app)) = GetFile ''/pics/B.gif'' (Some 1000)"
    using g c by (simp add: getImage_hit [OF m])
  from getImage_entry [of "''/pics/B.gif''" still_app] obtain e1 where
    e1: "map_of (fileCache ?a1) ''/pics/B.gif'' = Some e1" by blast
  have c1: "clock ?a1 = (\<lambda>n. 1000)" using getImage_clock [of "''/pics/B.gif''" still_app] c by simp
  have "src (fst (getImage ''/pics/B.gif'' ?a1)) = GetFile ''/pics/B.gif'' (Some 1000)"
    using g c1 by (simp add: getImage_hit [OF e1])
  with g s1 show ?thesis by simp
qed

section \<open>Evicting from the cache\<close>

lemma oldest_mem: "oldest acc bs \<in> set (acc # bs)"
  by (induction bs arbitrary: acc) (auto split: if_splits)

lemma oldest_append: "oldest acc (xs @ ys) = oldest (oldest acc xs) ys"
  by (induction xs arbitrary: acc) auto

lemma oldest_keeps: "\<forall>x\<in>set bs. ts (snd acc) < ts (snd x) \<Longrightarrow> oldest acc bs = acc"
  by (induction bs arbitrary: acc) auto

lemma oldest_last_minimum:
  assumes "c = pre @ m # post" and "c = x # xs"
    and "\<forall>y\<in>set pre. ts (snd m) \<le> ts (snd y)"
    and "\<forall>y\<in>set post. ts (snd m) < ts (snd y)"
  shows "oldest x xs = m"
proof (cases pre)
  case Nil
  with assms have "x = m" "xs = post" by simp_all
  with assms(4) show ?thesis by (simp add: oldest_keeps)
next
  case (Cons p ps)
  with assms have x: "x = p" and xs: "xs = ps @ m # post" by simp_all
  have "oldest x ps \<in> set (x # ps)" by (rule oldest_mem)
  then have "ts (snd m) \<le> ts (snd (oldest x ps))" using assms(3) Cons x by auto
  then have "oldest (oldest x ps) [m] = m" by simp
  then have "oldest x (ps @ [m]) = m" by (simp add: oldest_append)
  then have "oldest x ((ps @ [m]) @ post) = m"
    using assms(4) by (simp only: oldest_append [of x "ps @ [m]" post] oldest_keeps)
  then show ?thesis using xs by simp
qed

lemma oldest_split:
  "\<exists>pre post. acc # bs = pre @ oldest acc bs # post \<and>
      (\<forall>y\<in>set pre. ts (snd (oldest acc bs)) \<le> ts (snd y)) \<and>
      (\<forall>y\<in>set post. ts (snd (oldest acc bs)) < ts (snd y))"
proof (induction bs arbitrary: acc rule: rev_induct)
  case Nil
  have "[acc] = [] @ oldest acc [] # []" by simp
  then show ?case by force
next
  case (snoc b bs)
  from snoc [of acc] obtain pre post where
    d: "acc # bs = pre @ oldest acc bs # post"
    and le: "\<forall>y\<in>set pre. ts (snd (oldest acc bs)) \<le> ts (snd y)"
    and lt: "\<forall>y\<in>set post. ts (snd (oldest acc bs)) < ts (snd y)" by blast
  let ?m = "oldest acc bs"
  show ?case
  proof (cases "ts (snd ?m) < ts (snd b)")
    case True
    then have o: "oldest acc (bs @ [b]) = ?m" by (simp add: oldest_append)
    have "acc # bs @ [b] = pre @ ?m # (post @ [b])" using d by simp
    moreover have "\<forall>y\<in>set (post @ [b]). ts (snd ?m) < ts (snd y)" using lt True by simp
    ultimately show ?thesis unfolding o using le by blast
  next
    case False
    then have o: "oldest acc (bs @ [b]) = b" by (simp add: oldest_append)
    have "acc # bs @ [b] = (acc # bs) @ b # []" by simp
    moreover have "\<forall>y\<in>set (acc # bs). ts (snd b) \<le> ts (snd y)"
    proof
      fix y assume "y \<in> set (acc # bs)"
      then have "y \<in> set pre \<or> y = ?m \<or> y \<in> set post" using d by (metis Un_iff set_ConsD set_append)
      then have "ts (snd ?m) \<le> ts (snd y)" using le lt by auto
      then show "ts (snd b) \<le> ts (snd y)" using False by simp
    qed
    ultimately show ?thesis unfolding o by (metis empty_iff list.set(1))
  qed
qed

lemma delete_key_absent: "k \<notin> fst ` set c \<Longrightarrow> delete_key k c = c"
  by (induction c) (auto simp: delete_key_def)

lemma delete_key_distinct:
  assumes "distinct (map fst (pre @ (k, e) # post))"
  shows "delete_key k (pre @ (k, e) # post) = pre @ post"
proof -
  have "k \<notin> fst ` set pre" "k \<notin> fst ` set post" using assms by auto
  then have "delete_key k pre = pre" "delete_key k post = post"
    by (simp_all add: delete_key_absent)
  moreover have "delete_key k (pre @ (k, e) # post) = delete_key k pre @ delete_key k post"
    by (simp add: delete_key_def)
  ultimately show ?thesis by simp
qed

lemma keys_delete_key: "map fst (delete_key k c) = filter (\<lambda>k'. k' \<noteq> k) (map fst c)"
  by (induction c) (auto simp: delete_key_def)

lemma cleanupCache_keys_distinct:
  assumes "distinct (map fst (fileCache a))"
  shows "distinct (map fst (fileCache (cleanupCache a)))"
proof -
  have "distinct (map fst (delete_key k (fileCache a)))" for k
    using assms by (simp add: keys_delete_key)
  then show ?thesis using assms by (cases "fileCache a") (simp_all add: cleanupCache_def)
qed

lemma cleanupCache_small:
  "length (fileCache a) \<le> MAX_CACHED_IMAGES \<Longrightarrow> cleanupCache a = a"
  by (cases "fileCache a") (simp_all add: cleanupCache_def)

lemma cleanupCache_evicts:
  assumes "distinct (map fst (fileCache a))"
    and "fileCache a = pre @ (k, e) # post"
    and "\<forall>y\<in>set pre. ts e \<le> ts (snd y)"
    and "\<forall>y\<in>set post. ts e < ts (snd y)"
    and "length (fileCache a) > MAX_CACHED_IMAGES"
  shows "cleanupCache a = a\<lparr>fileCache := pre @ post\<rparr>"
proof -
  obtain x xs where c: "fileCache a = x # xs" using assms(5) by (cases "fileCache a") auto
  have "oldest x xs = (k, e)"
    using oldest_last_minimum [of "fileCache a" pre "(k, e)" post x xs] assms c by simp
  moreover have "delete_key k (fileCache a) = pre @ post"
    using assms(1,2) by (simp add: delete_key_distinct)
  ultimately show ?thesis using c assms(5) by (simp add: cleanupCache_def)
qed

lemma pic_inject: "pic m = pic n \<longleftrightarrow> m = n"
proof
  assume "pic m = pic n"
  then have "length (pic m) = length (pic n)" by simp
  then show "m = n" by (simp add: pic_def)
qed simp

lemma endsWith_last: "endsWith s t \<Longrightarrow> t \<noteq> [] \<Longrightarrow> last s = last t"
  by (metis endsWith_def last_drop drop_eq_Nil not_le_imp_less)

lemma last_pic: "last (pic n) = CHR ''g''"
  by (simp add: pic_def)

lemma pic_not_video: "\<not> isVideo (pic n)"
  using endsWith_last [of "pic n" "''.mp4''"] endsWith_last [of "pic n" "''.webm''"]
    endsWith_last [of "pic n" "''.mkv''"]
  by (auto simp: isVideo_def last_pic)

lemma pic_not_gif: "\<not> endsWith (pic n) ''.gif''"
  using endsWith_last [of "pic n" "''.gif''"] by (auto simp: last_pic)

lemma keys_pic_entries: "map fst (map (\<lambda>n. pic_entry n (t n)) ns) = map pic ns"
  by (simp add: pic_entry_def comp_def)

lemma distinct_pics: "distinct ns \<Longrightarrow> distinct (map pic ns)"
  by (simp add: distinct_map inj_on_def pic_inject)

lemma map_of_none_iff: "map_of c k = None \<longleftrightarrow> k \<notin> set (map fst c)"
  by (simp add: map_of_eq_None_iff)

lemma getImage_length:
  "length (fileCache (snd (getImage f a))) =
     (if f \<in> set (map fst (fileCache a)) then length (fileCache a) else Suc (length (fileCache a)))"
  using arg_cong [OF getImage_keys [of f a], of length]
  by (simp add: map_of_eq_None_iff)

lemma cleanupCache_length:
  assumes "distinct (map fst (fileCache a))"
  shows "length (fileCache (cleanupCache a)) =
     (if length (fileCache a) > MAX_CACHED_IMAGES then length (fileCache a) - 1
      else length (fileCache a))"
proof (cases "length (fileCache a) > MAX_CACHED_IMAGES")
  case False
  then show ?thesis by (simp add: cleanupCache_small)
next
  case True
  then obtain x xs where c: "fileCache a = x # xs" by (cases "fileCache a") auto
  from oldest_split [of x xs] obtain pre post where
    d: "x # xs = pre @ oldest x xs # post"
    and le: "\<forall>y\<in>set pre. ts (snd (oldest x xs)) \<le> ts (snd y)"
    and lt: "\<forall>y\<in>set post. ts (snd (oldest x xs)) < ts (snd y)" by blast
  obtain k e where ke: "oldest x xs = (k, e)" by (cases "oldest x xs")
  have "cleanupCache a = a\<lparr>fileCache := pre @ post\<rparr>"
    using cleanupCache_evicts [of a pre k e post] assms c d le lt ke True by simp
  moreover have "length (fileCache a) = length (pre @ oldest x xs # post)"
    using c d by metis
  ultimately show ?thesis using True by simp
qed


lemma cleanupCache_keys_subset:
  "set (map fst (fileCache (cleanupCache a))) \<subseteq> set (map fst (fileCache a))"
proof -
  have "set (map fst (delete_key k (fileCache a))) \<subseteq> set (map fst (fileCache a))" for k
    unfolding keys_delete_key by auto
  then show ?thesis by (cases "fileCache a") (simp_all add: cleanupCache_def)
qed

lemma renderImage_prefetch_grows:
  assumes d: "distinct (map fst (fileCache a))"
    and len: "length (fileCache a) = MAX_CACHED_IMAGES"
    and cur: "currentFile (state a) = Some f"
    and idx: "0 < fileIndex a" "fileIndex a + 1 < int (length (files (state a)))"
    and nf: "path (files (state a) ! nat (fileIndex a + 1)) = g"
    and pf: "path (files (state a) ! nat (fileIndex a - 1)) = h"
    and nv: "\<not> isVideo f" "\<not> isVideo g" "\<not> isVideo h"
    and fresh: "f \<notin> set (map fst (fileCache a))" "g \<notin> set (map fst (fileCache a))"
      "h \<notin> set (map fst (fileCache a))"
    and diff: "f \<noteq> g" "f \<noteq> h" "g \<noteq> h"
  shows "\<exists>a'. renderImage a = Inr a' \<and> length (fileCache a') = MAX_CACHED_IMAGES + 2"
proof -
  let ?a1 = "snd (getImage f a)"
  let ?a2 = "cleanupCache ?a1"
  let ?a3 = "snd (getImage g ?a2)"
  let ?a4 = "snd (getImage h ?a3)"
  have k1: "map fst (fileCache ?a1) = map fst (fileCache a) @ [f]"
    using fresh(1) by (simp add: getImage_keys map_of_eq_None_iff)
  have d1: "distinct (map fst (fileCache ?a1))" using d by (rule getImage_distinct)
  have l1: "length (fileCache ?a1) = Suc MAX_CACHED_IMAGES"
    using fresh(1) len by (simp add: getImage_length)
  have l2: "length (fileCache ?a2) = MAX_CACHED_IMAGES"
    using l1 by (simp add: cleanupCache_length [OF d1])
  have s2: "set (map fst (fileCache ?a2)) \<subseteq> set (map fst (fileCache a)) \<union> {f}"
    using cleanupCache_keys_subset [of ?a1] k1 by auto
  have g2: "g \<notin> set (map fst (fileCache ?a2))" using s2 fresh(2) diff(1) by auto
  have h2: "h \<notin> set (map fst (fileCache ?a2))" using s2 fresh(3) diff(2) by auto
  have l3: "length (fileCache ?a3) = Suc MAX_CACHED_IMAGES"
    using g2 l2 by (simp add: getImage_length)
  have k3: "map fst (fileCache ?a3) = map fst (fileCache ?a2) @ [g]"
    using g2 by (simp add: getImage_keys map_of_eq_None_iff)
  have h3: "h \<notin> set (map fst (fileCache ?a3))" using h2 diff(3) by (simp add: k3)
  have l4: "length (fileCache ?a4) = Suc (Suc MAX_CACHED_IMAGES)"
    using h3 l3 by (simp add: getImage_length)
  have n2: "same_navigation a ?a2"
    using same_navigation_trans [OF getImage_same cleanupCache_same] .
  then have st: "files (state ?a2) = files (state a)" "fileIndex ?a2 = fileIndex a"
    by (simp_all add: same_navigation_def)
  have ne: "files (state a) \<noteq> []" using idx by auto
  have mn: "min (int (length (files (state a))) - 1) (fileIndex a + 1) = fileIndex a + 1"
    using idx by simp
  have mx: "max 0 (fileIndex a - 1) = fileIndex a - 1" using idx by simp
  have an: "at_index (files (state a)) (fileIndex a + 1)
      = Some (files (state a) ! nat (fileIndex a + 1))"
    using idx by (simp add: at_index_def)
  have ap: "at_index (files (state a)) (fileIndex a - 1)
      = Some (files (state a) ! nat (fileIndex a - 1))"
    using idx by (simp add: at_index_def)
  have "preloadNextAndPrevious ?a2 = Inr ?a4"
    using ne nv nf pf
    by (simp add: preloadNextAndPrevious_def Let_def st mn mx an ap)
  then have "renderImage a = Inr ?a4" using cur nv(1) by (simp add: renderImage_def)
  then show ?thesis using l4 by simp
qed

lemma keys_later_entries: "map fst later_entries = map pic [2..<51]"
  unfolding later_entries_def by (rule keys_pic_entries)

lemma distinct_tied_cache: "distinct (map fst tied_cache)"
proof -
  have "map fst tied_cache = map pic ([0, 1] @ [2..<51])"
    by (simp add: tied_cache_def keys_later_entries pic_entry_def)
  moreover have "distinct ([0, 1] @ [2..<51 :: nat])" by simp
  ultimately show ?thesis by (simp only: distinct_pics)
qed

lemma length_tied_cache: "length tied_cache = 51"
  by (simp add: tied_cache_def later_entries_def)

lemma later_entries_newer: "\<forall>y\<in>set later_entries. 0 < ts (snd y)"
  by (auto simp: later_entries_def pic_entry_def)

text \<open>
  C2, as the code has it. \<^verbatim>\<open>_cleanupCache\<close> does nothing while at most 50 entries are
  cached; with more it removes exactly one entry, one whose time stamp is the smallest,
  and among several of the smallest the last in key order: every entry before it is at
  least as recent, every entry after it strictly more recent. Hence resolving an image
  and then evicting, from a cache of at most 50 entries, leaves at most 50 entries.
  (Keys of an object are unique, which resolving and evicting preserve.)
\<close>

theorem cleanupCache_evicts_oldest:
  assumes "distinct (map fst (fileCache a))"
  shows "MAX_CACHED_IMAGES = 50 \<and>
    (length (fileCache a) \<le> MAX_CACHED_IMAGES \<longrightarrow> cleanupCache a = a) \<and>
    (length (fileCache a) > MAX_CACHED_IMAGES \<longrightarrow>
       (\<exists>pre k e post. fileCache a = pre @ (k, e) # post \<and>
          (\<forall>y\<in>set pre. ts e \<le> ts (snd y)) \<and> (\<forall>y\<in>set post. ts e < ts (snd y)) \<and>
          cleanupCache a = a\<lparr>fileCache := pre @ post\<rparr>)) \<and>
    (length (fileCache a) \<le> MAX_CACHED_IMAGES \<longrightarrow>
       length (fileCache (cleanupCache (snd (getImage f a)))) \<le> MAX_CACHED_IMAGES \<and>
       distinct (map fst (fileCache (cleanupCache (snd (getImage f a))))))"
proof (intro conjI impI)
  show "MAX_CACHED_IMAGES = 50" by (simp add: MAX_CACHED_IMAGES_def)
next
  assume "length (fileCache a) \<le> MAX_CACHED_IMAGES"
  then show "cleanupCache a = a" by (rule cleanupCache_small)
next
  assume big: "length (fileCache a) > MAX_CACHED_IMAGES"
  then obtain x xs where c: "fileCache a = x # xs" by (cases "fileCache a") auto
  from oldest_split [of x xs] obtain pre post where
    d: "x # xs = pre @ oldest x xs # post"
    and le: "\<forall>y\<in>set pre. ts (snd (oldest x xs)) \<le> ts (snd y)"
    and lt: "\<forall>y\<in>set post. ts (snd (oldest x xs)) < ts (snd y)" by blast
  obtain k e where ke: "oldest x xs = (k, e)" by (cases "oldest x xs")
  have f: "fileCache a = pre @ (k, e) # post" using c d ke by simp
  have "cleanupCache a = a\<lparr>fileCache := pre @ post\<rparr>"
    using cleanupCache_evicts [of a pre k e post] assms f le lt ke big by simp
  with f le lt ke show "\<exists>pre k e post. fileCache a = pre @ (k, e) # post \<and>
          (\<forall>y\<in>set pre. ts e \<le> ts (snd y)) \<and> (\<forall>y\<in>set post. ts e < ts (snd y)) \<and>
          cleanupCache a = a\<lparr>fileCache := pre @ post\<rparr>"
    by auto
next
  assume small: "length (fileCache a) \<le> MAX_CACHED_IMAGES"
  have d1: "distinct (map fst (fileCache (snd (getImage f a))))"
    using assms by (rule getImage_distinct)
  have "length (fileCache (snd (getImage f a))) \<le> Suc MAX_CACHED_IMAGES"
    using small by (simp add: getImage_length)
  then show "length (fileCache (cleanupCache (snd (getImage f a)))) \<le> MAX_CACHED_IMAGES"
    unfolding cleanupCache_length [OF d1] by auto
  show "distinct (map fst (fileCache (cleanupCache (snd (getImage f a)))))"
    using d1 by (rule cleanupCache_keys_distinct)
qed

theorem cleanupCache_evicts_oldest_witness:
  "distinct (map fst (fileCache (gallery tied_cache None 0))) \<and>
   length (fileCache (gallery tied_cache None 0)) > MAX_CACHED_IMAGES \<and>
   length (fileCache (cleanupCache (gallery tied_cache None 0))) = 50 \<and>
   distinct (map fst (fileCache warm_app)) \<and>
   length (fileCache warm_app) \<le> MAX_CACHED_IMAGES \<and>
   cleanupCache warm_app = warm_app \<and>
   length (fileCache (cleanupCache (snd (getImage ''/pics/c.png'' warm_app)))) \<le> 50"
proof -
  let ?a = "gallery tied_cache None 0"
  have d: "distinct (map fst (fileCache ?a))" by (simp add: gallery_def distinct_tied_cache)
  have l: "length (fileCache ?a) = 51" by (simp add: gallery_def length_tied_cache)
  have m: "MAX_CACHED_IMAGES = 50" by (simp add: MAX_CACHED_IMAGES_def)
  from cleanupCache_evicts_oldest [OF d, of "''/pics/c.png''"] l m
  obtain pre k e post where
    "fileCache ?a = pre @ (k, e) # post" "cleanupCache ?a = ?a\<lparr>fileCache := pre @ post\<rparr>"
    by auto
  then have "length (fileCache (cleanupCache ?a)) = 50" using l by simp
  moreover
  have dw: "distinct (map fst (fileCache warm_app))" by (simp add: warm_app_def)
  have lw: "length (fileCache warm_app) \<le> MAX_CACHED_IMAGES" by (simp add: warm_app_def m)
  from cleanupCache_evicts_oldest [OF dw, of "''/pics/c.png''"] lw m
  have "cleanupCache warm_app = warm_app"
    "length (fileCache (cleanupCache (snd (getImage ''/pics/c.png'' warm_app)))) \<le> 50"
    by auto
  ultimately show ?thesis using d l m dw lw by simp
qed

text \<open>
  C2 with ties going to the first-encountered key, and with the bound of 50 on every
  reachable cache, does not hold. With 51 entries of which the first two in key order share the
  smallest time stamp, the eviction removes the second of them, \<open>pic 1\<close>, and keeps the
  first-encountered \<open>pic 0\<close>. And the cache is not bounded by 50: rendering \<open>pic 55\<close>
  with 50 other images cached evicts one entry after resolving the current image and
  then prefetches both neighbours, which leaves 52 entries.
\<close>

theorem eviction_tie_counterexample:
  "fileCache (gallery tied_cache None 0) = pic_entry 0 0 # pic_entry 1 0 # later_entries \<and>
   length (fileCache (gallery tied_cache None 0)) = 51 \<and>
   fileCache (cleanupCache (gallery tied_cache None 0)) = pic_entry 0 0 # later_entries \<and>
   (case renderImage (gallery full_cache (Some (pic 55)) 55) of
      Inl e \<Rightarrow> 0 | Inr a' \<Rightarrow> length (fileCache a')) = 52"
proof (intro conjI)
  let ?a = "gallery tied_cache None 0"
  show c: "fileCache ?a = pic_entry 0 0 # pic_entry 1 0 # later_entries"
    by (simp add: gallery_def tied_cache_def)
  show l: "length (fileCache ?a) = 51" by (simp add: gallery_def length_tied_cache)
  have d: "distinct (map fst (fileCache ?a))" by (simp add: gallery_def distinct_tied_cache)
  have c': "fileCache ?a = [pic_entry 0 0] @ (pic 1, snd (pic_entry 1 0)) # later_entries"
    using c by (simp add: pic_entry_def)
  have "cleanupCache ?a = ?a\<lparr>fileCache := [pic_entry 0 0] @ later_entries\<rparr>"
    using d c'
  proof (rule cleanupCache_evicts)
    show "\<forall>y\<in>set [pic_entry 0 0]. ts (snd (pic_entry 1 0)) \<le> ts (snd y)"
      by (simp add: pic_entry_def)
    show "\<forall>y\<in>set later_entries. ts (snd (pic_entry 1 0)) < ts (snd y)"
      using later_entries_newer by (simp add: pic_entry_def)
    show "MAX_CACHED_IMAGES < length (fileCache ?a)" using l by (simp add: MAX_CACHED_IMAGES_def)
  qed
  then show "fileCache (cleanupCache ?a) = pic_entry 0 0 # later_entries" by simp
next
  let ?b = "gallery full_cache (Some (pic 55)) 55"
  have "fileCache ?b = full_cache" by (simp add: gallery_def)
  then have k: "map fst (fileCache ?b) = map pic [0..<50]"
    unfolding full_cache_def by (simp only: keys_pic_entries)
  have fs: "files (state ?b) = map pic_file [0..<60]" "fileIndex ?b = 55"
    by (simp_all add: gallery_def)
  have "\<exists>a'. renderImage ?b = Inr a' \<and> length (fileCache a') = MAX_CACHED_IMAGES + 2"
  proof (rule renderImage_prefetch_grows [where f = "pic 55" and g = "pic 56" and h = "pic 54"])
    show "distinct (map fst (fileCache ?b))" unfolding k by (simp add: distinct_pics)
    show "length (fileCache ?b) = MAX_CACHED_IMAGES"
      by (simp add: gallery_def full_cache_def MAX_CACHED_IMAGES_def)
    show "currentFile (state ?b) = Some (pic 55)" by (simp add: gallery_def)
    show "0 < fileIndex ?b" by (simp add: fs)
    show "fileIndex ?b + 1 < int (length (files (state ?b)))" by (simp add: fs)
    show "path (files (state ?b) ! nat (fileIndex ?b + 1)) = pic 56"
      by (simp add: fs pic_file_def)
    show "path (files (state ?b) ! nat (fileIndex ?b - 1)) = pic 54"
      by (simp add: fs pic_file_def)
    show "\<not> isVideo (pic 55)" "\<not> isVideo (pic 56)" "\<not> isVideo (pic 54)"
      by (rule pic_not_video)+
    show "pic 55 \<notin> set (map fst (fileCache ?b))" unfolding k by (auto simp: pic_inject)
    show "pic 56 \<notin> set (map fst (fileCache ?b))" unfolding k by (auto simp: pic_inject)
    show "pic 54 \<notin> set (map fst (fileCache ?b))" unfolding k by (auto simp: pic_inject)
    show "pic 55 \<noteq> pic 56" "pic 55 \<noteq> pic 54" "pic 56 \<noteq> pic 54"
      by (simp_all add: pic_inject)
  qed
  then show "(case renderImage ?b of Inl e \<Rightarrow> 0 | Inr a' \<Rightarrow> length (fileCache a')) = 52"
    by (auto simp: MAX_CACHED_IMAGES_def)
qed

section \<open>The sort is a stable sort\<close>

lemma mset_insert_sorted: "mset (insert_sorted cmp x ys) = add_mset x (mset ys)"
  by (induction ys) auto

lemma mset_foldl_insert:
  "mset (foldl (\<lambda>done x. insert_sorted cmp x done) acc xs) = mset acc + mset xs"
  by (induction xs arbitrary: acc) (auto simp: mset_insert_sorted)

lemma mset_array_sort: "mset (array_sort cmp xs) = mset xs"
  by (simp add: array_sort_def mset_foldl_insert)

lemma set_array_sort: "set (array_sort cmp xs) = set xs"
  using mset_array_sort [of cmp xs] by (metis set_mset_mset)

lemma length_array_sort: "length (array_sort cmp xs) = length xs"
  using mset_array_sort [of cmp xs] by (metis size_mset)

lemma array_sort_Nil_iff: "array_sort cmp xs = [] \<longleftrightarrow> xs = []"
  using length_array_sort [of cmp xs] by (metis length_0_conv)

lemma filter_insert_sorted:
  assumes "\<And>y. y \<in> set ys \<Longrightarrow> P x \<Longrightarrow> P y \<Longrightarrow> \<not> cmp x y < 0"
  shows "filter P (insert_sorted cmp x ys) = (if P x then x # filter P ys else filter P ys)"
  using assms by (induction ys) auto

lemma filter_foldl_insert:
  assumes "\<And>x y. x \<in> set acc \<union> set xs \<Longrightarrow> y \<in> set acc \<union> set xs \<Longrightarrow> P x \<Longrightarrow> P y
             \<Longrightarrow> \<not> cmp x y < 0"
  shows "filter P (foldl (\<lambda>done x. insert_sorted cmp x done) acc xs)
           = rev (filter P xs) @ filter P acc"
  using assms
proof (induction xs arbitrary: acc)
  case Nil
  then show ?case by simp
next
  case (Cons x xs)
  have s: "set (insert_sorted cmp x acc) = insert x (set acc)"
    using mset_insert_sorted [of cmp x acc] by (metis set_mset_add_mset_insert set_mset_mset)
  have f: "filter P (insert_sorted cmp x acc) = (if P x then x # filter P acc else filter P acc)"
    by (rule filter_insert_sorted) (use Cons.prems in auto)
  have "filter P (foldl (\<lambda>done x. insert_sorted cmp x done) (insert_sorted cmp x acc) xs)
          = rev (filter P xs) @ filter P (insert_sorted cmp x acc)"
    by (rule Cons.IH) (use Cons.prems s in auto)
  then show ?case using f by simp
qed

lemma array_sort_stable:
  assumes "\<And>x y. x \<in> set xs \<Longrightarrow> y \<in> set xs \<Longrightarrow> P x \<Longrightarrow> P y \<Longrightarrow> \<not> cmp x y < 0"
  shows "filter P (array_sort cmp xs) = filter P xs"
proof -
  have "filter P (foldl (\<lambda>done x. insert_sorted cmp x done) [] xs) = rev (filter P xs) @ filter P []"
    by (rule filter_foldl_insert) (use assms in auto)
  then have "filter P (foldl (\<lambda>done x. insert_sorted cmp x done) [] xs) = rev (filter P xs)"
    by simp
  then have "rev (filter P (foldl (\<lambda>done x. insert_sorted cmp x done) [] xs)) = filter P xs"
    by simp
  then show ?thesis by (simp only: array_sort_def rev_filter)
qed

lemma set_insert_sorted: "set (insert_sorted cmp x ys) = insert x (set ys)"
  by (induction ys) auto

lemma sorted_insert_sorted:
  assumes asym: "\<And>y. y \<in> set ys \<Longrightarrow> cmp x y < 0 \<Longrightarrow> \<not> cmp y x < 0"
    and ntrans: "\<And>y z. y \<in> set ys \<Longrightarrow> z \<in> set ys \<Longrightarrow> \<not> cmp x y < 0 \<Longrightarrow> \<not> cmp y z < 0
                   \<Longrightarrow> \<not> cmp x z < 0"
    and srt: "sorted_wrt (\<lambda>a b. \<not> cmp a b < 0) ys"
  shows "sorted_wrt (\<lambda>a b. \<not> cmp a b < 0) (insert_sorted cmp x ys)"
  using assms
proof (induction ys)
  case Nil
  show ?case by simp
next
  case (Cons y ys)
  show ?case
  proof (cases "cmp x y < 0")
    case True
    have "sorted_wrt (\<lambda>a b. \<not> cmp a b < 0) (insert_sorted cmp x ys)"
    proof (rule Cons.IH)
      fix y' assume "y' \<in> set ys" "cmp x y' < 0"
      then show "\<not> cmp y' x < 0" using Cons.prems(1) [of y'] by simp
    next
      fix y' z assume "y' \<in> set ys" "z \<in> set ys" "\<not> cmp x y' < 0" "\<not> cmp y' z < 0"
      then show "\<not> cmp x z < 0" using Cons.prems(2) [of y' z] by simp
    next
      show "sorted_wrt (\<lambda>a b. \<not> cmp a b < 0) ys" using Cons.prems(3) by simp
    qed
    moreover have "\<not> cmp y x < 0" using Cons.prems(1) [of y] True by simp
    moreover have "\<forall>z\<in>set ys. \<not> cmp y z < 0" using Cons.prems(3) by simp
    ultimately show ?thesis using True by (simp add: set_insert_sorted)
  next
    case False
    have "\<not> cmp x z < 0" if "z \<in> set ys" for z
    proof -
      have "\<not> cmp y z < 0" using Cons.prems(3) that by simp
      then show ?thesis using Cons.prems(2) [of y z] False that by simp
    qed
    then show ?thesis using False Cons.prems(3) by simp
  qed
qed

lemma sorted_foldl_insert:
  assumes asym: "\<And>x y. x \<in> set acc \<union> set xs \<Longrightarrow> y \<in> set acc \<union> set xs \<Longrightarrow> cmp x y < 0
                   \<Longrightarrow> \<not> cmp y x < 0"
    and ntrans: "\<And>x y z. x \<in> set acc \<union> set xs \<Longrightarrow> y \<in> set acc \<union> set xs
                   \<Longrightarrow> z \<in> set acc \<union> set xs \<Longrightarrow> \<not> cmp x y < 0 \<Longrightarrow> \<not> cmp y z < 0
                   \<Longrightarrow> \<not> cmp x z < 0"
    and srt: "sorted_wrt (\<lambda>a b. \<not> cmp a b < 0) acc"
  shows "sorted_wrt (\<lambda>a b. \<not> cmp a b < 0) (foldl (\<lambda>done x. insert_sorted cmp x done) acc xs)"
  using assms
proof (induction xs arbitrary: acc)
  case Nil
  show ?case using Nil.prems(3) by simp
next
  case (Cons x xs)
  have i: "sorted_wrt (\<lambda>a b. \<not> cmp a b < 0) (insert_sorted cmp x acc)"
  proof (rule sorted_insert_sorted)
    fix y assume "y \<in> set acc" "cmp x y < 0"
    then show "\<not> cmp y x < 0" using Cons.prems(1) [of x y] by simp
  next
    fix y z assume "y \<in> set acc" "z \<in> set acc" "\<not> cmp x y < 0" "\<not> cmp y z < 0"
    then show "\<not> cmp x z < 0" using Cons.prems(2) [of x y z] by simp
  next
    show "sorted_wrt (\<lambda>a b. \<not> cmp a b < 0) acc" by (rule Cons.prems(3))
  qed
  have u: "set (insert_sorted cmp x acc) \<union> set xs = set acc \<union> set (x # xs)"
    by (auto simp: set_insert_sorted)
  have "sorted_wrt (\<lambda>a b. \<not> cmp a b < 0)
          (foldl (\<lambda>done x. insert_sorted cmp x done) (insert_sorted cmp x acc) xs)"
  proof (rule Cons.IH)
    show "\<And>x' y. x' \<in> set (insert_sorted cmp x acc) \<union> set xs
            \<Longrightarrow> y \<in> set (insert_sorted cmp x acc) \<union> set xs \<Longrightarrow> cmp x' y < 0 \<Longrightarrow> \<not> cmp y x' < 0"
      unfolding u by (rule Cons.prems(1))
    show "\<And>x' y z. x' \<in> set (insert_sorted cmp x acc) \<union> set xs
            \<Longrightarrow> y \<in> set (insert_sorted cmp x acc) \<union> set xs
            \<Longrightarrow> z \<in> set (insert_sorted cmp x acc) \<union> set xs
            \<Longrightarrow> \<not> cmp x' y < 0 \<Longrightarrow> \<not> cmp y z < 0 \<Longrightarrow> \<not> cmp x' z < 0"
      unfolding u by (rule Cons.prems(2))
    show "sorted_wrt (\<lambda>a b. \<not> cmp a b < 0) (insert_sorted cmp x acc)" by (rule i)
  qed
  then show ?case by simp
qed

lemma array_sort_sorted:
  assumes asym: "\<And>x y. x \<in> set xs \<Longrightarrow> y \<in> set xs \<Longrightarrow> cmp x y < 0 \<Longrightarrow> \<not> cmp y x < 0"
    and ntrans: "\<And>x y z. x \<in> set xs \<Longrightarrow> y \<in> set xs \<Longrightarrow> z \<in> set xs
                   \<Longrightarrow> \<not> cmp x y < 0 \<Longrightarrow> \<not> cmp y z < 0 \<Longrightarrow> \<not> cmp x z < 0"
  shows "sorted_wrt (\<lambda>a b. \<not> cmp b a < 0) (array_sort cmp xs)"
proof -
  have "sorted_wrt (\<lambda>a b. \<not> cmp a b < 0) (foldl (\<lambda>done x. insert_sorted cmp x done) [] xs)"
  proof (rule sorted_foldl_insert)
    fix x y assume "x \<in> set [] \<union> set xs" "y \<in> set [] \<union> set xs" "cmp x y < 0"
    then show "\<not> cmp y x < 0" using asym [of x y] by simp
  next
    fix x y z
    assume "x \<in> set [] \<union> set xs" "y \<in> set [] \<union> set xs" "z \<in> set [] \<union> set xs"
      "\<not> cmp x y < 0" "\<not> cmp y z < 0"
    then show "\<not> cmp x z < 0" using ntrans [of x y z] by simp
  next
    show "sorted_wrt (\<lambda>a b. \<not> cmp a b < 0) []" by simp
  qed
  then show ?thesis by (simp add: array_sort_def sorted_wrt_rev)
qed




section \<open>Re-sorting and refreshing complete\<close>

lemma findIndex_bounds: "- 1 \<le> findIndex p xs \<and> findIndex p xs < int (length xs)"
  by (induction xs) (auto simp: Let_def)

lemma findIndex_none: "(\<forall>x\<in>set xs. \<not> p x) \<Longrightarrow> findIndex p xs = - 1"
  by (induction xs) (auto simp: Let_def)

lemma findIndex_found:
  "\<exists>x\<in>set xs. p x \<Longrightarrow>
     0 \<le> findIndex p xs \<and> p (xs ! nat (findIndex p xs)) \<and>
     (\<forall>j < nat (findIndex p xs). \<not> p (xs ! j))"
proof (induction xs)
  case Nil
  then show ?case by simp
next
  case (Cons x xs)
  show ?case
  proof (cases "p x")
    case True
    then show ?thesis by simp
  next
    case False
    with Cons.prems have "\<exists>x\<in>set xs. p x" by simp
    from Cons.IH [OF this] have ih: "0 \<le> findIndex p xs" "p (xs ! nat (findIndex p xs))"
      "\<forall>j < nat (findIndex p xs). \<not> p (xs ! j)" by simp_all
    have n: "nat (findIndex p xs + 1) = Suc (nat (findIndex p xs))" using ih(1) by simp
    have "\<not> p ((x # xs) ! j)" if "j < Suc (nat (findIndex p xs))" for j
      using that False ih(3) by (cases j) simp_all
    then show ?thesis using False ih n by (simp add: Let_def)
  qed
qed

lemma resort_ok:
  "\<exists>a'. resort a = Inr a' \<and>
     state a' = (state a)\<lparr>folders := array_sort folderCmp (folders (state a)),
                          files := array_sort (fileCmp (sortBy (state a)) (sortOrder (state a)))
                                     (files (state a))\<rparr> \<and>
     fileIndex a' = max 0 (findIndex (\<lambda>f. Some (path f) = currentFile (state a))
                             (array_sort (fileCmp (sortBy (state a)) (sortOrder (state a)))
                                (files (state a)))) \<and>
     previousFolder a' = previousFolder a \<and> consoleErrors a' = consoleErrors a"
proof -
  let ?fs = "array_sort (fileCmp (sortBy (state a)) (sortOrder (state a))) (files (state a))"
  let ?st = "(state a)\<lparr>folders := array_sort folderCmp (folders (state a)), files := ?fs\<rparr>"
  let ?i = "max 0 (findIndex (\<lambda>f. Some (path f) = currentFile (state a)) ?fs)"
  let ?b = "save (a\<lparr>state := ?st, fileIndex := ?i\<rparr>)"
  have r: "resort a = render ?b" by (simp add: resort_def Let_def)
  have sb: "state ?b = ?st" "fileIndex ?b = ?i" "previousFolder ?b = previousFolder a"
    "consoleErrors ?b = consoleErrors a"
    by (simp_all add: save_def)
  have "?fs = [] \<or> (0 \<le> ?i \<and> ?i < int (length ?fs))"
    using findIndex_bounds [of "\<lambda>f. Some (path f) = currentFile (state a)" ?fs]
    by (cases ?fs) auto
  then have "files (state ?b) = [] \<or>
      (0 \<le> fileIndex ?b \<and> fileIndex ?b < int (length (files (state ?b))))"
    by (simp add: save_def)
  from render_ok [OF this] obtain a' where
    "render ?b = Inr a'" "state a' = state ?b" "fileIndex a' = fileIndex ?b"
    "previousFolder a' = previousFolder ?b" "consoleErrors a' = consoleErrors ?b" by blast
  then show ?thesis using r sb by simp
qed


lemma reconcile_ok:
  assumes "fileIndex a = max 0 (findIndex (\<lambda>f. Some (path f) = currentFile (state a)) (files (state a)))"
  shows "\<exists>a'. reconcile a = Inr a' \<and>
     state a' = (state a)\<lparr>currentFile :=
        (if files (state a) = [] then None
         else if \<exists>f\<in>set (files (state a)). Some (path f) = currentFile (state a)
              then currentFile (state a)
              else Some (path (files (state a) ! 0)))\<rparr> \<and>
     fileIndex a' =
        (if files (state a) = [] then 0
         else if \<exists>f\<in>set (files (state a)). Some (path f) = currentFile (state a)
              then findIndex (\<lambda>f. Some (path f) = currentFile (state a)) (files (state a))
              else 0) \<and>
     previousFolder a' = previousFolder a \<and> consoleErrors a' = consoleErrors a \<and>
     listRebuildRequired a' = listRebuildRequired a"
proof -
  let ?fs = "files (state a)"
  let ?p = "\<lambda>f. Some (path f) = currentFile (state a)"
  show ?thesis
  proof (cases "?fs = []")
    case True
    then show ?thesis using assms by (simp add: reconcile_def set_currentFile_def)
  next
    case ne: False
    show ?thesis
    proof (cases "\<exists>f\<in>set ?fs. ?p f")
      case True
      from findIndex_found [of ?fs ?p, OF True] have "0 \<le> findIndex ?p ?fs" by simp
      then have "findIndex ?p ?fs \<noteq> - 1" by simp
      then show ?thesis using ne True by (simp add: reconcile_def Let_def)
    next
      case False
      then have "findIndex ?p ?fs = - 1" by (simp add: findIndex_none)
      moreover have "at_index ?fs 0 = Some (?fs ! 0)" using ne by (simp add: at_index_def)
      ultimately show ?thesis using ne False
        by (simp add: reconcile_def Let_def set_currentFile_def)
    qed
  qed
qed

lemma fetchList_listing:
  "\<exists>a'. fetchList (Listing d) force a = Inr a' \<and>
     files (state a') = array_sort (fileCmp (sortBy (state a)) (sortOrder (state a))) (resp_files d) \<and>
     folders (state a') = array_sort folderCmp (resp_folders d) \<and>
     currentPath (state a') = Some (canonical_path d) \<and>
     folderHash (state a') = Some (resp_hash d) \<and>
     currentFile (state a') =
        (if resp_files d = [] then None
         else if \<exists>f\<in>set (resp_files d). Some (path f) = currentFile (state a)
              then currentFile (state a)
              else Some (path (array_sort (fileCmp (sortBy (state a)) (sortOrder (state a)))
                                 (resp_files d) ! 0))) \<and>
     fileIndex a' =
        (if resp_files d = [] then 0
         else if \<exists>f\<in>set (resp_files d). Some (path f) = currentFile (state a)
              then findIndex (\<lambda>f. Some (path f) = currentFile (state a))
                     (array_sort (fileCmp (sortBy (state a)) (sortOrder (state a))) (resp_files d))
              else 0) \<and>
     consoleErrors a' = consoleErrors a"
proof -
  let ?fs = "array_sort (fileCmp (sortBy (state a)) (sortOrder (state a))) (resp_files d)"
  let ?p = "\<lambda>f. Some (path f) = currentFile (state a)"
  let ?a1 = "a\<lparr>listRebuildRequired := (currentPath (state a) \<noteq> Some (canonical_path d) \<or> force)\<rparr>"
  let ?a2 = "?a1\<lparr>state := (state ?a1)\<lparr>currentPath := Some (canonical_path d),
                 folders := resp_folders d, files := resp_files d,
                 folderHash := Some (resp_hash d)\<rparr>\<rparr>"
  from resort_ok [of ?a2] obtain a3 where a3: "resort ?a2 = Inr a3"
    and s3: "state a3 = (state ?a2)\<lparr>folders := array_sort folderCmp (folders (state ?a2)),
                files := array_sort (fileCmp (sortBy (state ?a2)) (sortOrder (state ?a2)))
                           (files (state ?a2))\<rparr>"
    and i3: "fileIndex a3 = max 0 (findIndex (\<lambda>f. Some (path f) = currentFile (state ?a2))
                (array_sort (fileCmp (sortBy (state ?a2)) (sortOrder (state ?a2)))
                   (files (state ?a2))))"
    and e3: "consoleErrors a3 = consoleErrors ?a2" by blast
  have f3: "files (state a3) = ?fs" "currentFile (state a3) = currentFile (state a)"
    "folders (state a3) = array_sort folderCmp (resp_folders d)"
    "currentPath (state a3) = Some (canonical_path d)" "folderHash (state a3) = Some (resp_hash d)"
    using s3 by simp_all
  have "fileIndex a3 = max 0 (findIndex (\<lambda>f. Some (path f) = currentFile (state a3)) (files (state a3)))"
    using i3 f3 by simp
  from reconcile_ok [OF this] obtain a4 where a4: "reconcile a3 = Inr a4"
    and s4: "state a4 = (state a3)\<lparr>currentFile :=
        (if ?fs = [] then None else if \<exists>f\<in>set ?fs. ?p f then currentFile (state a)
         else Some (path (?fs ! 0)))\<rparr>"
    and i4: "fileIndex a4 = (if ?fs = [] then 0 else if \<exists>f\<in>set ?fs. ?p f
         then findIndex ?p ?fs else 0)"
    and e4: "consoleErrors a4 = consoleErrors a3"
    unfolding f3 by blast
  have rng: "files (state (save a4)) = [] \<or>
      (0 \<le> fileIndex (save a4) \<and> fileIndex (save a4) < int (length (files (state (save a4)))))"
  proof (cases "?fs = []")
    case True
    then show ?thesis using s4 f3 by (simp add: save_def)
  next
    case False
    have "0 \<le> fileIndex a4 \<and> fileIndex a4 < int (length ?fs)"
    proof (cases "\<exists>f\<in>set ?fs. ?p f")
      case True
      then show ?thesis
        using i4 False findIndex_found [of ?fs ?p] findIndex_bounds [of ?p ?fs] by simp
    next
      case no: False
      then show ?thesis using i4 False by (cases ?fs) simp_all
    qed
    then show ?thesis using s4 f3 by (simp add: save_def)
  qed
  from render_ok [OF rng] obtain a' where a': "render (save a4) = Inr a'"
    and s': "state a' = state (save a4)" and i': "fileIndex a' = fileIndex (save a4)"
    and e': "consoleErrors a' = consoleErrors (save a4)" by blast
  have "fetchList (Listing d) force a = Inr a'"
    using a3 a4 a' by (simp add: fetchList_def Let_def and_then_def)
  moreover have "state a' = state a4" "fileIndex a' = fileIndex a4"
    "consoleErrors a' = consoleErrors a"
    using s' i' e' e4 e3 by (simp_all add: save_def)
  ultimately show ?thesis
    using s4 i4 f3 by (simp add: set_array_sort array_sort_Nil_iff)
qed

lemma cursor_on_currentI:
  assumes "\<exists>f\<in>set (files (state a)). Some (path f) = currentFile (state a)"
    and "fileIndex a = findIndex (\<lambda>f. Some (path f) = currentFile (state a)) (files (state a))"
  shows "cursor_on_current a"
  using findIndex_found [of "files (state a)" "\<lambda>f. Some (path f) = currentFile (state a)", OF assms(1)]
    findIndex_bounds [of "\<lambda>f. Some (path f) = currentFile (state a)" "files (state a)"] assms(2)
  by (simp add: cursor_on_current_def)

lemma fetchList_failure:
  "fetchList NetworkError force a = Inl (TypeError, a\<lparr>consoleErrors := Suc (consoleErrors a)\<rparr>)"
  "fetchList MalformedJson force a = Inl (TypeError, a\<lparr>consoleErrors := Suc (consoleErrors a)\<rparr>)"
  by (simp_all add: fetchList_def)

text \<open>
  C1. When the listing request fails, or its body is not JSON, the error is logged, the
  \<^verbatim>\<open>AppState\<close> is left as it was, and nothing is thrown past the handler. The code
  logs and leaves the state alone, and then it throws: the \<^verbatim>\<open>catch\<close> block does not
  return, and line 210 reads \<^verbatim>\<open>data.canonical_path\<close> of an undefined \<^verbatim>\<open>data\<close>, so
  the promise of \<^verbatim>\<open>_fetchList\<close> is rejected with a TypeError.
\<close>

theorem fetch_failure_throws:
  "fetchList NetworkError True abc_app = Inl (TypeError, abc_app\<lparr>consoleErrors := 1\<rparr>) \<and>
   fetchList MalformedJson True abc_app = Inl (TypeError, abc_app\<lparr>consoleErrors := 1\<rparr>) \<and>
   state (abc_app\<lparr>consoleErrors := 1\<rparr>) = state abc_app"
  by (simp add: fetchList_def abc_app_def)

theorem fetch_failure_throws_witness:
  "fetchList NetworkError True abc_app \<noteq> Inr abc_app \<and>
   (\<exists>a'. fetchList MalformedJson True abc_app = Inl (TypeError, a') \<and>
      state a' = state abc_app \<and> consoleErrors a' = Suc (consoleErrors abc_app))"
  using fetch_failure_throws by (simp add: abc_app_def)

section \<open>The selection across re-sorting and refreshing\<close>

lemma resort_selection:
  "\<exists>a'. resort a = Inr a' \<and> currentFile (state a') = currentFile (state a) \<and>
      files (state a') = array_sort (fileCmp (sortBy (state a)) (sortOrder (state a))) (files (state a)) \<and>
      ((\<exists>f\<in>set (files (state a)). Some (path f) = currentFile (state a)) \<longrightarrow>
         fileIndex a' = findIndex (\<lambda>f. Some (path f) = currentFile (state a')) (files (state a')) \<and>
         cursor_on_current a')"
proof -
  let ?fs = "array_sort (fileCmp (sortBy (state a)) (sortOrder (state a))) (files (state a))"
  let ?p = "\<lambda>f. Some (path f) = currentFile (state a)"
  from resort_ok [of a] obtain a' where r: "resort a = Inr a'"
    and s: "state a' = (state a)\<lparr>folders := array_sort folderCmp (folders (state a)), files := ?fs\<rparr>"
    and i: "fileIndex a' = max 0 (findIndex ?p ?fs)" by blast
  have c: "currentFile (state a') = currentFile (state a)" "files (state a') = ?fs"
    using s by simp_all
  have "fileIndex a' = findIndex (\<lambda>f. Some (path f) = currentFile (state a')) (files (state a')) \<and>
      cursor_on_current a'"
    if h: "\<exists>f\<in>set (files (state a)). ?p f"
  proof -
    have h': "\<exists>f\<in>set ?fs. ?p f" using h by (simp add: set_array_sort)
    from findIndex_found [of ?fs ?p, OF h'] have "0 \<le> findIndex ?p ?fs" by simp
    then have e: "fileIndex a' = findIndex (\<lambda>f. Some (path f) = currentFile (state a')) (files (state a'))"
      using i c by simp
    moreover have "cursor_on_current a'"
      by (rule cursor_on_currentI) (use h' c e in simp_all)
    ultimately show ?thesis by simp
  qed
  then show ?thesis using r c by blast
qed

lemma abc_app_fields:
  "files (state abc_app) = abc_files" "currentFile (state abc_app) = Some ''b''"
  "sortBy (state abc_app) = Name" "sortOrder (state abc_app) = Asc"
  by (simp_all add: abc_app_def defaultState_def)

lemma abc_sorted:
  "array_sort (fileCmp Name Desc) abc_files = [abc_files ! 2, abc_files ! 1, abc_files ! 0]"
  "array_sort (fileCmp Name Asc) abc_files = abc_files"
  "array_sort (fileCmp Name Asc) (resp_files listing_with_b)
     = [resp_files listing_with_b ! 2, resp_files listing_with_b ! 1, resp_files listing_with_b ! 0]"
  "array_sort (fileCmp Name Asc) (resp_files listing_without_b)
     = [resp_files listing_without_b ! 1, resp_files listing_without_b ! 0]"
  by code_simp+

text \<open>
  C4. Every re-sort (\<^verbatim>\<open>_resort\<close>, and \<^verbatim>\<open>changeSort\<close> with a new key or order) completes
  and leaves \<^verbatim>\<open>currentFile\<close> as it was, with the files in the new order; when
  \<^verbatim>\<open>currentFile\<close> is the path of one of the files, the cursor ends on the first entry
  with that path in the new order. \<^verbatim>\<open>changeSort\<close> with the key and order already in
  force changes nothing. A successful refresh whose files still contain an entry with the
  path \<^verbatim>\<open>currentFile\<close> completes, keeps \<^verbatim>\<open>currentFile\<close> and puts the cursor on that
  entry in the sorted new list.
\<close>

theorem selection_survives_reorder:
  "(\<exists>a'. resort a = Inr a' \<and> currentFile (state a') = currentFile (state a) \<and>
      files (state a') = array_sort (fileCmp (sortBy (state a)) (sortOrder (state a))) (files (state a)) \<and>
      ((\<exists>f\<in>set (files (state a)). Some (path f) = currentFile (state a)) \<longrightarrow>
         fileIndex a' = findIndex (\<lambda>f. Some (path f) = currentFile (state a')) (files (state a')) \<and>
         cursor_on_current a')) \<and>
   (sortBy (state a) \<noteq> sb \<or> sortOrder (state a) \<noteq> so \<longrightarrow>
      (\<exists>a'. changeSort sb so a = Inr a' \<and> currentFile (state a') = currentFile (state a) \<and>
         files (state a') = array_sort (fileCmp sb so) (files (state a)) \<and>
         ((\<exists>f\<in>set (files (state a)). Some (path f) = currentFile (state a)) \<longrightarrow>
            fileIndex a' = findIndex (\<lambda>f. Some (path f) = currentFile (state a')) (files (state a')) \<and>
            cursor_on_current a'))) \<and>
   (sortBy (state a) = sb \<and> sortOrder (state a) = so \<longrightarrow> changeSort sb so a = Inr a) \<and>
   ((\<exists>f\<in>set (resp_files d). Some (path f) = currentFile (state a)) \<longrightarrow>
      (\<exists>a'. fetchList (Listing d) force a = Inr a' \<and> currentFile (state a') = currentFile (state a) \<and>
         files (state a') = array_sort (fileCmp (sortBy (state a)) (sortOrder (state a))) (resp_files d) \<and>
         fileIndex a' = findIndex (\<lambda>f. Some (path f) = currentFile (state a')) (files (state a')) \<and>
         cursor_on_current a'))"
proof (intro conjI impI)
  show "\<exists>a'. resort a = Inr a' \<and> currentFile (state a') = currentFile (state a) \<and>
      files (state a') = array_sort (fileCmp (sortBy (state a)) (sortOrder (state a))) (files (state a)) \<and>
      ((\<exists>f\<in>set (files (state a)). Some (path f) = currentFile (state a)) \<longrightarrow>
         fileIndex a' = findIndex (\<lambda>f. Some (path f) = currentFile (state a')) (files (state a')) \<and>
         cursor_on_current a')"
    by (rule resort_selection)
next
  assume "sortBy (state a) \<noteq> sb \<or> sortOrder (state a) \<noteq> so"
  then have c: "changeSort sb so a = resort (a\<lparr>state := (state a)\<lparr>sortBy := sb, sortOrder := so\<rparr>\<rparr>)"
    by (auto simp: changeSort_def)
  show "\<exists>a'. changeSort sb so a = Inr a' \<and> currentFile (state a') = currentFile (state a) \<and>
         files (state a') = array_sort (fileCmp sb so) (files (state a)) \<and>
         ((\<exists>f\<in>set (files (state a)). Some (path f) = currentFile (state a)) \<longrightarrow>
            fileIndex a' = findIndex (\<lambda>f. Some (path f) = currentFile (state a')) (files (state a')) \<and>
            cursor_on_current a')"
    using resort_selection [of "a\<lparr>state := (state a)\<lparr>sortBy := sb, sortOrder := so\<rparr>\<rparr>"]
    unfolding c by simp
next
  assume "sortBy (state a) = sb \<and> sortOrder (state a) = so"
  then show "changeSort sb so a = Inr a" by (simp add: changeSort_def)
next
  assume h: "\<exists>f\<in>set (resp_files d). Some (path f) = currentFile (state a)"
  let ?fs = "array_sort (fileCmp (sortBy (state a)) (sortOrder (state a))) (resp_files d)"
  from h have ne: "resp_files d \<noteq> []" by auto
  from fetchList_listing [of d force a] obtain a' where r: "fetchList (Listing d) force a = Inr a'"
    and f: "files (state a') = ?fs"
    and c: "currentFile (state a') = currentFile (state a)"
    and i: "fileIndex a' = findIndex (\<lambda>f. Some (path f) = currentFile (state a)) ?fs"
    using h ne by auto
  have e: "fileIndex a' = findIndex (\<lambda>f. Some (path f) = currentFile (state a')) (files (state a'))"
    using i f c by simp
  have "\<exists>f\<in>set (files (state a')). Some (path f) = currentFile (state a')"
    using h f c by (simp add: set_array_sort)
  then have "cursor_on_current a'" using e by (rule cursor_on_currentI)
  then show "\<exists>a'. fetchList (Listing d) force a = Inr a' \<and> currentFile (state a') = currentFile (state a) \<and>
         files (state a') = array_sort (fileCmp (sortBy (state a)) (sortOrder (state a))) (resp_files d) \<and>
         fileIndex a' = findIndex (\<lambda>f. Some (path f) = currentFile (state a')) (files (state a')) \<and>
         cursor_on_current a'"
    using r f c e by blast
qed

theorem selection_survives_reorder_witness:
  "sortBy (state abc_app) = Name \<and> sortOrder (state abc_app) = Asc \<and>
   (\<exists>f\<in>set (files (state abc_app)). Some (path f) = currentFile (state abc_app)) \<and>
   (\<exists>f\<in>set (resp_files listing_with_b). Some (path f) = currentFile (state abc_app)) \<and>
   (\<exists>a'. resort abc_app = Inr a' \<and> currentFile (state a') = Some ''b'' \<and>
      map path (files (state a')) = [''a'', ''b'', ''c''] \<and> fileIndex a' = 1) \<and>
   (\<exists>a'. changeSort Name Desc abc_app = Inr a' \<and> currentFile (state a') = Some ''b'' \<and>
      map path (files (state a')) = [''c'', ''b'', ''a''] \<and> fileIndex a' = 1) \<and>
   changeSort Name Asc abc_app = Inr abc_app \<and>
   (\<exists>a'. fetchList (Listing listing_with_b) True abc_app = Inr a' \<and>
      currentFile (state a') = Some ''b'' \<and>
      map path (files (state a')) = [''a'', ''b'', ''d''] \<and> fileIndex a' = 1)"
proof -
  note t = selection_survives_reorder [of abc_app Name Desc listing_with_b True]
  note u = selection_survives_reorder [of abc_app Name Asc listing_with_b True]
  have h1: "sortBy (state abc_app) \<noteq> Name \<or> sortOrder (state abc_app) \<noteq> Desc"
    by (simp add: abc_app_fields)
  have h2: "\<exists>f\<in>set (files (state abc_app)). Some (path f) = currentFile (state abc_app)"
    by (simp add: abc_app_fields abc_files_def)
  have h3: "\<exists>f\<in>set (resp_files listing_with_b). Some (path f) = currentFile (state abc_app)"
    by (simp add: abc_app_fields listing_with_b_def)
  have h4: "sortBy (state abc_app) = Name \<and> sortOrder (state abc_app) = Asc"
    by (simp add: abc_app_fields)
  from t h2 obtain a1 where a1: "resort abc_app = Inr a1"
    "currentFile (state a1) = currentFile (state abc_app)"
    "files (state a1) = array_sort (fileCmp (sortBy (state abc_app)) (sortOrder (state abc_app)))
        (files (state abc_app))"
    "fileIndex a1 = findIndex (\<lambda>f. Some (path f) = currentFile (state a1)) (files (state a1))"
    by blast
  have r1: "currentFile (state a1) = Some ''b'' \<and> map path (files (state a1)) = [''a'', ''b'', ''c''] \<and>
      fileIndex a1 = 1"
  proof -
    have "files (state a1) = abc_files" using a1(3) by (simp only: abc_app_fields abc_sorted)
    then show ?thesis using a1(2,4) by (simp add: abc_app_fields abc_files_def)
  qed
  from t h1 h2 obtain a2 where a2: "changeSort Name Desc abc_app = Inr a2"
    "currentFile (state a2) = currentFile (state abc_app)"
    "files (state a2) = array_sort (fileCmp Name Desc) (files (state abc_app))"
    "fileIndex a2 = findIndex (\<lambda>f. Some (path f) = currentFile (state a2)) (files (state a2))"
    by blast
  have r2: "currentFile (state a2) = Some ''b'' \<and> map path (files (state a2)) = [''c'', ''b'', ''a''] \<and>
      fileIndex a2 = 1"
  proof -
    have "files (state a2) = [abc_files ! 2, abc_files ! 1, abc_files ! 0]"
      using a2(3) by (simp only: abc_app_fields abc_sorted)
    then show ?thesis using a2(2,4) by (simp add: abc_app_fields abc_files_def)
  qed
  from u h4 have r3: "changeSort Name Asc abc_app = Inr abc_app" by blast
  from t h3 obtain a4 where a4: "fetchList (Listing listing_with_b) True abc_app = Inr a4"
    "currentFile (state a4) = currentFile (state abc_app)"
    "files (state a4) = array_sort (fileCmp (sortBy (state abc_app)) (sortOrder (state abc_app)))
        (resp_files listing_with_b)"
    "fileIndex a4 = findIndex (\<lambda>f. Some (path f) = currentFile (state a4)) (files (state a4))"
    by blast
  have r4: "currentFile (state a4) = Some ''b'' \<and> map path (files (state a4)) = [''a'', ''b'', ''d''] \<and>
      fileIndex a4 = 1"
  proof -
    have "files (state a4) = [resp_files listing_with_b ! 2, resp_files listing_with_b ! 1,
        resp_files listing_with_b ! 0]"
      using a4(3) by (simp only: abc_app_fields abc_sorted)
    then show ?thesis using a4(2,4) by (simp add: abc_app_fields listing_with_b_def)
  qed
  have e1: "\<exists>a'. resort abc_app = Inr a' \<and> currentFile (state a') = Some ''b'' \<and>
      map path (files (state a')) = [''a'', ''b'', ''c''] \<and> fileIndex a' = 1"
    using a1(1) r1 by (intro exI [of _ a1]) simp
  have e2: "\<exists>a'. changeSort Name Desc abc_app = Inr a' \<and> currentFile (state a') = Some ''b'' \<and>
      map path (files (state a')) = [''c'', ''b'', ''a''] \<and> fileIndex a' = 1"
    using a2(1) r2 by (intro exI [of _ a2]) simp
  have e4: "\<exists>a'. fetchList (Listing listing_with_b) True abc_app = Inr a' \<and>
      currentFile (state a') = Some ''b'' \<and>
      map path (files (state a')) = [''a'', ''b'', ''d''] \<and> fileIndex a' = 1"
    using a4(1) r4 by (intro exI [of _ a4]) simp
  from h4 have h4a: "sortBy (state abc_app) = Name" and h4b: "sortOrder (state abc_app) = Asc"
    by simp_all
  show ?thesis
    by (intro conjI) (fact h4a, fact h4b, fact h2, fact h3, fact e1, fact e2, fact r3, fact e4)
qed

text \<open>
  C3. A successful refresh whose new list of files is not empty and has no entry with
  the path of the previous \<^verbatim>\<open>currentFile\<close> completes with the cursor at \<open>0\<close> and
  \<^verbatim>\<open>currentFile\<close> the path of the first file of the sorted new list; one whose new list
  is empty completes with \<^verbatim>\<open>currentFile\<close> null (and the cursor at \<open>0\<close>).
\<close>

theorem refresh_reselects:
  "(resp_files d \<noteq> [] \<and> (\<forall>f\<in>set (resp_files d). Some (path f) \<noteq> currentFile (state a)) \<longrightarrow>
      (\<exists>a'. fetchList (Listing d) force a = Inr a' \<and> fileIndex a' = 0 \<and>
         files (state a') = array_sort (fileCmp (sortBy (state a)) (sortOrder (state a))) (resp_files d) \<and>
         files (state a') \<noteq> [] \<and>
         currentFile (state a') = Some (path (files (state a') ! 0)))) \<and>
   (resp_files d = [] \<longrightarrow>
      (\<exists>a'. fetchList (Listing d) force a = Inr a' \<and> files (state a') = [] \<and>
         currentFile (state a') = None \<and> fileIndex a' = 0))"
proof (intro conjI impI)
  assume h: "resp_files d \<noteq> [] \<and> (\<forall>f\<in>set (resp_files d). Some (path f) \<noteq> currentFile (state a))"
  from fetchList_listing [of d force a] h
  show "\<exists>a'. fetchList (Listing d) force a = Inr a' \<and> fileIndex a' = 0 \<and>
         files (state a') = array_sort (fileCmp (sortBy (state a)) (sortOrder (state a))) (resp_files d) \<and>
         files (state a') \<noteq> [] \<and>
         currentFile (state a') = Some (path (files (state a') ! 0))"
    by (auto simp: array_sort_Nil_iff)
next
  assume h: "resp_files d = []"
  from fetchList_listing [of d force a] h
  show "\<exists>a'. fetchList (Listing d) force a = Inr a' \<and> files (state a') = [] \<and>
         currentFile (state a') = None \<and> fileIndex a' = 0"
    by (auto simp: array_sort_def)
qed


theorem refresh_reselects_witness:
  "resp_files listing_without_b \<noteq> [] \<and>
   currentFile (state abc_app) \<notin> set (map (\<lambda>f. Some (path f)) (resp_files listing_without_b)) \<and>
   (\<exists>a'. fetchList (Listing listing_without_b) False abc_app = Inr a' \<and> fileIndex a' = 0 \<and>
      map path (files (state a')) = [''a'', ''d''] \<and> currentFile (state a') = Some ''a'') \<and>
   resp_files empty_listing = [] \<and>
   (\<exists>a'. fetchList (Listing empty_listing) False abc_app = Inr a' \<and> files (state a') = [] \<and>
      currentFile (state a') = None)"
proof -
  have h1: "resp_files listing_without_b \<noteq> [] \<and>
      (\<forall>f\<in>set (resp_files listing_without_b). Some (path f) \<noteq> currentFile (state abc_app))"
    by (simp add: abc_app_fields listing_without_b_def)
  have h2: "resp_files empty_listing = []" by (simp add: empty_listing_def)
  from refresh_reselects [of listing_without_b abc_app False] h1
  obtain a1 where a1: "fetchList (Listing listing_without_b) False abc_app = Inr a1"
    "fileIndex a1 = 0"
    "files (state a1) = array_sort (fileCmp (sortBy (state abc_app)) (sortOrder (state abc_app)))
        (resp_files listing_without_b)"
    "currentFile (state a1) = Some (path (files (state a1) ! 0))"
    by blast
  have r1: "map path (files (state a1)) = [''a'', ''d''] \<and> currentFile (state a1) = Some ''a''"
  proof -
    have "files (state a1) = [resp_files listing_without_b ! 1, resp_files listing_without_b ! 0]"
      using a1(3) by (simp only: abc_app_fields abc_sorted)
    then show ?thesis using a1(4) by (simp add: listing_without_b_def)
  qed
  from refresh_reselects [of empty_listing abc_app False] h2
  obtain a2 where a2: "fetchList (Listing empty_listing) False abc_app = Inr a2"
    "files (state a2) = []" "currentFile (state a2) = None"
    by blast
  have e1: "\<exists>a'. fetchList (Listing listing_without_b) False abc_app = Inr a' \<and> fileIndex a' = 0 \<and>
      map path (files (state a')) = [''a'', ''d''] \<and> currentFile (state a') = Some ''a''"
    using a1(1,2) r1 by (intro exI [of _ a1]) simp
  have e2: "\<exists>a'. fetchList (Listing empty_listing) False abc_app = Inr a' \<and> files (state a') = [] \<and>
      currentFile (state a') = None"
    using a2 by (intro exI [of _ a2]) simp
  from h1 have h1a: "resp_files listing_without_b \<noteq> []"
    and h1b: "currentFile (state abc_app) \<notin> set (map (\<lambda>f. Some (path f)) (resp_files listing_without_b))"
    by auto
  show ?thesis by (intro conjI) (fact h1a, fact h1b, fact e1, fact h2, fact e2)
qed

section \<open>Sorting the files\<close>










section \<open>Sorting the folders\<close>

text \<open>
  The folders whose key is \<open>..\<close> answer \<open>-1\<close> to every comparison, and every other
  folder answers \<open>1\<close> against them. So they end up in front, each new one before
  those already there, and the rest is sorted by key, stably.
\<close>

lemma folderCmp_parent: "is_parent x \<Longrightarrow> folderCmp x y = - 1"
  by (simp add: folderCmp_def is_parent_def folder_key_def)

lemma folderCmp_before_parent: "\<not> is_parent x \<Longrightarrow> is_parent y \<Longrightarrow> folderCmp x y = 1"
  by (simp add: folderCmp_def is_parent_def folder_key_def)

lemma folderCmp_keys:
  "\<not> is_parent x \<Longrightarrow> \<not> is_parent y \<Longrightarrow>
     folderCmp x y = compareKeys Asc (folder_key x) (folder_key y)"
  by (simp add: folderCmp_def is_parent_def folder_key_def compareKeys_def)

lemma insert_parent: "is_parent x \<Longrightarrow> insert_sorted folderCmp x ys = ys @ [x]"
  by (induction ys) (simp_all add: folderCmp_parent)

lemma insert_nonparent:
  assumes "\<not> is_parent x" and "\<forall>d\<in>set ds. is_parent d"
  shows "insert_sorted folderCmp x (ys @ ds) = insert_sorted folderCmp x ys @ ds"
proof (induction ys)
  case Nil
  show ?case using assms by (cases ds) (simp_all add: folderCmp_before_parent)
next
  case (Cons y ys)
  then show ?case by simp
qed

lemma foldl_folders:
  assumes "\<forall>d\<in>set ds. is_parent d"
  shows "foldl (\<lambda>done x. insert_sorted folderCmp x done) (ys @ ds) xs
           = foldl (\<lambda>done x. insert_sorted folderCmp x done) ys (filter (\<lambda>f. \<not> is_parent f) xs)
               @ ds @ filter is_parent xs"
  using assms
proof (induction xs arbitrary: ys ds)
  case Nil
  show ?case by simp
next
  case (Cons x xs)
  show ?case
  proof (cases "is_parent x")
    case True
    have "insert_sorted folderCmp x (ys @ ds) = ys @ (ds @ [x])"
      using True by (simp add: insert_parent)
    moreover have "\<forall>d\<in>set (ds @ [x]). is_parent d" using True Cons.prems by simp
    ultimately show ?thesis using True Cons.IH [of "ds @ [x]" ys] by simp
  next
    case False
    have "insert_sorted folderCmp x (ys @ ds) = insert_sorted folderCmp x ys @ ds"
      using False Cons.prems by (rule insert_nonparent)
    then show ?thesis using False Cons.IH [OF Cons.prems, of "insert_sorted folderCmp x ys"] by simp
  qed
qed

lemma folders_shape:
  "array_sort folderCmp xs
     = rev (filter is_parent xs) @ array_sort folderCmp (filter (\<lambda>f. \<not> is_parent f) xs)"
  using foldl_folders [of "[]" "[]" xs] by (simp add: array_sort_def)

lemma folders_rest_sorted:
  assumes "\<forall>f\<in>set xs. \<not> is_parent f"
  shows "sorted (map folder_key (array_sort folderCmp xs))"
proof -
  have "sorted_wrt (\<lambda>a b. \<not> folderCmp b a < 0) (array_sort folderCmp xs)"
  proof (rule array_sort_sorted)
    fix x y assume "x \<in> set xs" "y \<in> set xs" "folderCmp x y < 0"
    then show "\<not> folderCmp y x < 0"
      using assms by (auto simp: folderCmp_keys compareKeys_def split: if_splits)
  next
    fix x y z assume "x \<in> set xs" "y \<in> set xs" "z \<in> set xs"
      "\<not> folderCmp x y < 0" "\<not> folderCmp y z < 0"
    then show "\<not> folderCmp x z < 0"
      using assms by (auto simp: folderCmp_keys compareKeys_def split: if_splits)
  qed
  then have "sorted_wrt (\<lambda>a b. folder_key a \<le> folder_key b) (array_sort folderCmp xs)"
  proof (rule sorted_wrt_mono_rel [rotated])
    fix a b assume "a \<in> set (array_sort folderCmp xs)" "b \<in> set (array_sort folderCmp xs)"
      "\<not> folderCmp b a < 0"
    then show "folder_key a \<le> folder_key b"
      using assms by (auto simp: set_array_sort folderCmp_keys compareKeys_def split: if_splits)
  qed
  then show ?thesis by (simp add: sorted_map)
qed

lemma folders_rest_stable:
  assumes "\<forall>f\<in>set xs. \<not> is_parent f"
  shows "filter (\<lambda>f. folder_key f = k) (array_sort folderCmp xs) = filter (\<lambda>f. folder_key f = k) xs"
proof (rule array_sort_stable)
  fix x y assume "x \<in> set xs" "y \<in> set xs" "folder_key x = k" "folder_key y = k"
  then show "\<not> folderCmp x y < 0" using assms by (simp add: folderCmp_keys compareKeys_def)
qed

lemma folders_one_parent:
  assumes "length (filter is_parent xs) \<le> 1"
  shows "array_sort folderCmp xs
           = filter is_parent xs @ array_sort folderCmp (filter (\<lambda>f. \<not> is_parent f) xs)"
    and "sorted (map folder_key (array_sort folderCmp (filter (\<lambda>f. \<not> is_parent f) xs)))"
    and "filter (\<lambda>f. folder_key f = k) (array_sort folderCmp xs) = filter (\<lambda>f. folder_key f = k) xs"
proof -
  have r: "rev (filter is_parent xs) = filter is_parent xs"
    using assms by (cases "filter is_parent xs") (simp_all)
  show s: "array_sort folderCmp xs
           = filter is_parent xs @ array_sort folderCmp (filter (\<lambda>f. \<not> is_parent f) xs)"
    using folders_shape [of xs] r by simp
  have np: "\<forall>f\<in>set (filter (\<lambda>f. \<not> is_parent f) xs). \<not> is_parent f" by simp
  show "sorted (map folder_key (array_sort folderCmp (filter (\<lambda>f. \<not> is_parent f) xs)))"
    using np by (rule folders_rest_sorted)
  have st: "filter (\<lambda>f. folder_key f = k) (array_sort folderCmp (filter (\<lambda>f. \<not> is_parent f) xs))
      = filter (\<lambda>f. folder_key f = k) (filter (\<lambda>f. \<not> is_parent f) xs)"
    using np by (rule folders_rest_stable)
  show "filter (\<lambda>f. folder_key f = k) (array_sort folderCmp xs) = filter (\<lambda>f. folder_key f = k) xs"
  proof (cases "k = ''..''")
    case True
    have ip: "is_parent = (\<lambda>f. folder_key f = k)"
      using True by (simp add: fun_eq_iff is_parent_def)
    have a: "filter (\<lambda>f. folder_key f = k) (filter (\<lambda>f. \<not> is_parent f) xs) = []"
      unfolding ip by (simp add: filter_empty_conv)
    have b: "filter (\<lambda>f. folder_key f = k) (filter is_parent xs) = filter is_parent xs"
      unfolding ip by simp
    have c: "filter (\<lambda>f. folder_key f = k) xs = filter is_parent xs"
      unfolding ip by simp
    show ?thesis unfolding s using st a b c by simp
  next
    case False
    have ip: "is_parent = (\<lambda>f. folder_key f = ''..'')"
      by (simp add: fun_eq_iff is_parent_def)
    have a: "filter (\<lambda>f. folder_key f = k) (filter is_parent xs) = []"
      unfolding ip using False by (auto simp: filter_empty_conv)
    have b: "filter (\<lambda>f. folder_key f = k) (filter (\<lambda>f. \<not> is_parent f) xs)
        = filter (\<lambda>f. folder_key f = k) xs"
      unfolding ip using False by (auto intro: filter_cong)
    show ?thesis unfolding s using st a b by simp
  qed
qed

text \<open>
  C5. The folder sort orders by the normalized key, whatever the sort key and order of
  the files, puts an entry with the key \<open>..\<close> first, and keeps entries with equal
  keys in their original order. With at most one entry of key \<open>..\<close> this is what the
  code does (\<open>folders_one_parent\<close>). With two of them it is not: for the parent entry
  followed by a folder named \<open>(..)\<close> the comparator answers \<open>-1\<close> in both directions,
  never \<open>0\<close> (the test \<^verbatim>\<open>aVal === bVal\<close> comes after the two tests for \<open>..\<close>), and the
  sort returns them in reverse order.
\<close>

theorem duplicate_parent_reversed:
  "folder_key parent_dir = ''..'' \<and> folder_key paren_dir = ''..'' \<and>
   folderCmp parent_dir paren_dir = - 1 \<and> folderCmp paren_dir parent_dir = - 1 \<and>
   array_sort folderCmp [parent_dir, paren_dir] = [paren_dir, parent_dir]"
  by (intro conjI; code_simp)


end
